theory Spec2Isabelle
  imports Main
begin

section \<open>Document projector: the struct fields of the export query\<close>

text \<open>
  \<^verbatim>\<open>ParquetIngestor._get_json_struct_fields\<close> is a fragment of SQL that the query engine
  evaluates once per joined row. Every column is a nullable \<^verbatim>\<open>VARCHAR\<close>: a value of
  type \<open>string option\<close>, with \<open>None\<close> for SQL \<^verbatim>\<open>NULL\<close>. A row of a table is a function
  from column names to such values; a \<^verbatim>\<open>LEFT JOIN\<close> without a partner gives the row that
  is \<^verbatim>\<open>NULL\<close> in every column. Characters of SQL text are single-byte (the CSV input is
  CP1252), so \<open>CHR 0xE3\<close> is the letter a with tilde.
\<close>

type_synonym varchar = "string option"
type_synonym row = "string \<Rightarrow> varchar"

datatype sqlval =
    SNull
  | SText string
  | SBool bool
  | SList "sqlval list"
  | SStruct "(string \<times> sqlval) list"

definition text_val :: "varchar \<Rightarrow> sqlval" where
  "text_val v = (case v of None \<Rightarrow> SNull | Some s \<Rightarrow> SText s)"

text \<open>\<^verbatim>\<open>COALESCE(x, d)\<close> with a non-null default.\<close>

definition coalesce :: "varchar \<Rightarrow> string \<Rightarrow> varchar" where
  "coalesce v d = (case v of None \<Rightarrow> Some d | Some s \<Rightarrow> Some s)"

text \<open>\<^verbatim>\<open>a || b\<close>: concatenation, \<^verbatim>\<open>NULL\<close> when either side is.\<close>

definition sql_concat :: "varchar \<Rightarrow> varchar \<Rightarrow> varchar" where
  "sql_concat a b =
     (case a of None \<Rightarrow> None
      | Some x \<Rightarrow> (case b of None \<Rightarrow> None | Some y \<Rightarrow> Some (x @ y)))"

text \<open>
  \<^verbatim>\<open>LPAD(s, n, c)\<close> of the engine: pads on the left up to \<open>n\<close> characters and cuts
  a longer string down to its first \<open>n\<close> characters; \<^verbatim>\<open>NULL\<close> stays \<^verbatim>\<open>NULL\<close>.
\<close>

definition lpad_str :: "string \<Rightarrow> nat \<Rightarrow> char \<Rightarrow> string" where
  "lpad_str s n c =
     (if n \<le> length s then take n s else replicate (n - length s) c @ s)"

definition lpad :: "varchar \<Rightarrow> nat \<Rightarrow> char \<Rightarrow> varchar" where
  "lpad v n c = map_option (\<lambda>s. lpad_str s n c) v"

text \<open>
  \<^verbatim>\<open>CASE LPAD(e.situacao_cadastral, 2, '0') WHEN '01' THEN 'Nula' ... ELSE e.situacao_cadastral END\<close>.
  A \<^verbatim>\<open>NULL\<close> operand equals no \<^verbatim>\<open>WHEN\<close> value, so it reaches the \<^verbatim>\<open>ELSE\<close>.
\<close>

definition situacao_cadastral_case :: "varchar \<Rightarrow> varchar" where
  "situacao_cadastral_case x =
     (let k = lpad x 2 (CHR ''0'') in
      if k = Some ''01'' then Some ''Nula''
      else if k = Some ''02'' then Some ''Ativa''
      else if k = Some ''03'' then Some ''Suspensa''
      else if k = Some ''04'' then Some ''Inapta''
      else if k = Some ''08'' then Some ''Baixada''
      else x)"

text \<open>
  \<^verbatim>\<open>CASE e.identificador_matriz_filial WHEN '1' THEN 'Matriz' WHEN '2' THEN 'Filial'
  ELSE e.identificador_matriz_filial END\<close>.
\<close>

definition matriz_filial_case :: "varchar \<Rightarrow> varchar" where
  "matriz_filial_case x =
     (if x = Some ''1'' then Some ''Matriz''
      else if x = Some ''2'' then Some ''Filial''
      else x)"

text \<open>
  \<^verbatim>\<open>CASE emp.porte_empresa WHEN '00' THEN ... ELSE COALESCE(emp.porte_empresa, '') END\<close>.
\<close>

definition porte_empresa_case :: "varchar \<Rightarrow> varchar" where
  "porte_empresa_case x =
     (if x = Some ''00'' then Some (''N'' @ [CHR 0xE3] @ ''o informado'')
      else if x = Some ''01'' then Some ''Microempresa (ME)''
      else if x = Some ''03'' then Some ''Empresa de Pequeno Porte (EPP)''
      else if x = Some ''05'' then Some ''Demais''
      else coalesce x '''')"

text \<open>The date guard \<^verbatim>\<open>x ~ '^[0-9]{8}$'\<close>; on \<^verbatim>\<open>NULL\<close> it is not true.\<close>

definition is_digit :: "char \<Rightarrow> bool" where
  "is_digit c = (c \<in> set ''0123456789'')"

definition matches_8_digits :: "varchar \<Rightarrow> bool" where
  "matches_8_digits x =
     (case x of None \<Rightarrow> False | Some s \<Rightarrow> length s = 8 \<and> list_all is_digit s)"

text \<open>\<^verbatim>\<open>SUBSTRING(s, start, len)\<close>, positions counted from 1.\<close>

definition substring :: "varchar \<Rightarrow> nat \<Rightarrow> nat \<Rightarrow> varchar" where
  "substring x start len = map_option (\<lambda>s. take len (drop (start - 1) s)) x"

definition date_case :: "varchar \<Rightarrow> varchar" where
  "date_case x =
     (if matches_8_digits x
      then sql_concat (sql_concat (sql_concat (sql_concat
             (substring x 1 4) (Some ''-'')) (substring x 5 2)) (Some ''-'')) (substring x 7 2)
      else coalesce x '''')"

text \<open>\<^verbatim>\<open>string_split(s, ',')\<close>: the pieces of \<open>s\<close> between separators.\<close>

fun string_split :: "string \<Rightarrow> char \<Rightarrow> string list" where
  "string_split [] sep = [[]]"
| "string_split (c # cs) sep =
     (if c = sep then [] # string_split cs sep
      else (case string_split cs sep of
              [] \<Rightarrow> [[c]]
            | p # ps \<Rightarrow> (c # p) # ps))"

definition cnaes_secundarios_case :: "varchar \<Rightarrow> sqlval" where
  "cnaes_secundarios_case x =
     (case x of
        None \<Rightarrow> SList []
      | Some s \<Rightarrow> if s \<noteq> '''' then SList (map SText (string_split s (CHR '',''))) else SList [])"

text \<open>
  One slot of the \<^verbatim>\<open>telefones\<close> list:
  \<^verbatim>\<open>CASE WHEN ddd IS NOT NULL OR numero IS NOT NULL THEN struct_pack(...) ELSE NULL END\<close>.
\<close>

definition telefone_slot :: "varchar \<Rightarrow> varchar \<Rightarrow> bool \<Rightarrow> sqlval" where
  "telefone_slot ddd numero fax =
     (if ddd \<noteq> None \<or> numero \<noteq> None
      then SStruct [(''ddd'', text_val (coalesce ddd '''')),
                    (''numero'', text_val (coalesce numero '''')),
                    (''is_fax'', SBool fax)]
      else SNull)"

text \<open>
  The struct itself, field by field in the order of the source. \<open>e\<close>, \<open>emp\<close>, \<open>s\<close>,
  \<open>natz\<close> (the legal-nature lookup), \<open>mun\<close> are the joined rows; \<open>sd\<close> is \<^verbatim>\<open>sd.qsa_data\<close>, \<open>None\<close> when the
  establishment has no partner.
\<close>

definition get_json_struct_fields ::
  "row \<Rightarrow> row \<Rightarrow> row \<Rightarrow> row \<Rightarrow> row \<Rightarrow> sqlval list option \<Rightarrow> (string \<times> sqlval) list" where
  "get_json_struct_fields e emp s natz mun sd =
     [(''cnpj'', text_val (sql_concat (sql_concat (e ''cnpj_basico'') (e ''cnpj_ordem'')) (e ''cnpj_dv''))),
      (''razao_social'', text_val (coalesce (emp ''razao_social'') '''')),
      (''nome_fantasia'', text_val (coalesce (e ''nome_fantasia'') '''')),
      (''situacao_cadastral'', text_val (situacao_cadastral_case (e ''situacao_cadastral''))),
      (''data_situacao_cadastral'', text_val (date_case (e ''data_situacao_cadastral''))),
      (''matriz_filial'', text_val (matriz_filial_case (e ''identificador_matriz_filial''))),
      (''data_inicio_atividade'', text_val (date_case (e ''data_inicio_atividade''))),
      (''cnae_principal'', text_val (coalesce (e ''cnae_principal'') '''')),
      (''cnaes_secundarios'', cnaes_secundarios_case (e ''cnaes_secundarios'')),
      (''natureza_juridica'', text_val (coalesce (natz ''descricao'') '''')),
      (''tipo_logradouro'', text_val (coalesce (e ''tipo_logradouro'') '''')),
      (''logradouro'', text_val (coalesce (e ''logradouro'') '''')),
      (''numero'', text_val (coalesce (e ''numero'') '''')),
      (''complemento'', text_val (coalesce (e ''complemento'') '''')),
      (''bairro'', text_val (coalesce (e ''bairro'') '''')),
      (''cep'', text_val (coalesce (e ''cep'') '''')),
      (''uf'', text_val (coalesce (e ''uf'') '''')),
      (''municipio'', text_val (coalesce (mun ''descricao'') '''')),
      (''email'', text_val (coalesce (e ''correio_eletronico'') '''')),
      (''telefones'', SList (filter (\<lambda>x. x \<noteq> SNull)
          [telefone_slot (e ''ddd1'') (e ''telefone1'') False,
           telefone_slot (e ''ddd2'') (e ''telefone2'') False,
           telefone_slot (e ''ddd_fax'') (e ''fax'') True])),
      (''capital_social'', text_val (coalesce (emp ''capital_social'') '''')),
      (''porte_empresa'', text_val (porte_empresa_case (emp ''porte_empresa''))),
      (''opcao_simples'', text_val (coalesce (s ''opcao_simples'') '''')),
      (''data_opcao_simples'', text_val (date_case (s ''data_opcao_simples''))),
      (''opcao_mei'', text_val (coalesce (s ''opcao_mei'') '''')),
      (''data_opcao_mei'', text_val (date_case (s ''data_opcao_mei''))),
      (''QSA'', SList (case sd of None \<Rightarrow> [] | Some q \<Rightarrow> q))]"

text \<open>The status table as the specification lists it.\<close>

definition status_table :: "(string \<times> string) list" where
  "status_table =
     [(''01'', ''Nula''), (''02'', ''Ativa''), (''03'', ''Suspensa''),
      (''04'', ''Inapta''), (''08'', ''Baixada'')]"

text \<open>The row of a \<^verbatim>\<open>LEFT JOIN\<close> that found no partner, and a sample establishment.\<close>

definition null_row :: row where
  "null_row = (\<lambda>_. None)"

definition sample_estabelecimento :: row where
  "sample_estabelecimento =
     null_row(''cnpj_basico'' := Some ''12345678'',
              ''cnpj_ordem'' := Some ''0001'',
              ''cnpj_dv'' := Some ''90'',
              ''nome_fantasia'' := Some ''ACME'')"

text \<open>
  The string-typed fields whose expression ends in a \<^verbatim>\<open>COALESCE\<close> (directly, or in the
  \<^verbatim>\<open>ELSE\<close> of their \<^verbatim>\<open>CASE\<close>) are text in every document, whatever the rows hold.
\<close>

definition coalesced_fields :: "string list" where
  "coalesced_fields =
     [''razao_social'', ''nome_fantasia'', ''data_situacao_cadastral'',
      ''data_inicio_atividade'', ''cnae_principal'', ''natureza_juridica'',
      ''tipo_logradouro'', ''logradouro'', ''numero'', ''complemento'', ''bairro'',
      ''cep'', ''uf'', ''municipio'', ''email'', ''capital_social'', ''porte_empresa'',
      ''opcao_simples'', ''data_opcao_simples'', ''opcao_mei'', ''data_opcao_mei'']"

section \<open>Python text\<close>

text \<open>
  A Python \<^verbatim>\<open>str\<close> is a sequence of Unicode code points; \<open>len\<close>, indexing, \<open>strip\<close>
  and the regular expressions of the source all count code points. The embedding takes a
  code point as a natural number and a \<^verbatim>\<open>str\<close> as a list of them. \<open>str\<close> turns an ASCII
  literal into such a list.
\<close>

type_synonym pystr = "nat list"

definition str :: "string \<Rightarrow> pystr" where
  "str s = map of_char s"

text \<open>
  \<^verbatim>\<open>str.isspace\<close> of one code point. \<^verbatim>\<open>str.strip()\<close> and the class \<^verbatim>\<open>\s\<close> of
  \<^verbatim>\<open>re\<close> (on \<^verbatim>\<open>str\<close> patterns) both use exactly this set.
\<close>

definition py_isspace :: "nat \<Rightarrow> bool" where
  "py_isspace c =
     ((9 \<le> c \<and> c \<le> 13) \<or> (28 \<le> c \<and> c \<le> 32) \<or> c = 133 \<or> c = 160 \<or> c = 5760 \<or>
      (8192 \<le> c \<and> c \<le> 8202) \<or> c = 8232 \<or> c = 8233 \<or> c = 8239 \<or> c = 8287 \<or> c = 12288)"

definition py_strip :: "pystr \<Rightarrow> pystr" where
  "py_strip s = rev (dropWhile py_isspace (rev (dropWhile py_isspace s)))"

text \<open>
  The class \<^verbatim>\<open>\d\<close> of \<^verbatim>\<open>re\<close> on a \<^verbatim>\<open>str\<close> pattern is the Unicode category Nd, not only
  \<open>0\<close> to \<open>9\<close>. Nd comes in blocks of ten consecutive code points; \<open>nd_blocks\<close> lists the
  first code point (the digit zero) of each block (Unicode 14, the tables of Python 3.11).
\<close>

definition nd_blocks :: "nat list" where
  "nd_blocks =
     [0x30, 0x660, 0x6f0, 0x7c0, 0x966, 0x9e6, 0xa66, 0xae6, 0xb66, 0xbe6, 0xc66, 0xce6,
      0xd66, 0xde6, 0xe50, 0xed0, 0xf20, 0x1040, 0x1090, 0x17e0, 0x1810, 0x1946, 0x19d0,
      0x1a80, 0x1a90, 0x1b50, 0x1bb0, 0x1c40, 0x1c50, 0xa620, 0xa8d0, 0xa900, 0xa9d0,
      0xa9f0, 0xaa50, 0xabf0, 0xff10, 0x104a0, 0x10d30, 0x11066, 0x110f0, 0x11136,
      0x111d0, 0x112f0, 0x11450, 0x114d0, 0x11650, 0x116c0, 0x11730, 0x118e0, 0x11950,
      0x11c50, 0x11d50, 0x11da0, 0x16a60, 0x16ac0, 0x16b50, 0x1d7ce, 0x1d7d8, 0x1d7e2,
      0x1d7ec, 0x1d7f6, 0x1e140, 0x1e2f0, 0x1e950, 0x1fbf0]"

definition re_digit :: "nat \<Rightarrow> bool" where
  "re_digit c = list_ex (\<lambda>z. z \<le> c \<and> c \<le> z + 9) nd_blocks"

definition ascii_upper_letter :: "nat \<Rightarrow> bool" where
  "ascii_upper_letter c = (65 \<le> c \<and> c \<le> 90)"

definition ascii_lower_letter :: "nat \<Rightarrow> bool" where
  "ascii_lower_letter c = (97 \<le> c \<and> c \<le> 122)"

text \<open>
  The class \<^verbatim>\<open>[A-Z]\<close> under \<^verbatim>\<open>re.IGNORECASE\<close>: the 52 ASCII letters and the four
  code points whose case folding is an ASCII letter (U+0130, U+0131, U+017F, U+212A).
\<close>

definition re_A_Z_ignorecase :: "nat \<Rightarrow> bool" where
  "re_A_Z_ignorecase c =
     (ascii_upper_letter c \<or> ascii_lower_letter c \<or>
      c = 0x130 \<or> c = 0x131 \<or> c = 0x17f \<or> c = 0x212a)"

text \<open>
  \<^verbatim>\<open>str.upper()\<close> maps a text one code point at a time, and some code points to more
  than one (U+00DF gives \<open>SS\<close>). The table of Unicode behind it is not part of the
  repository: the functions that call \<^verbatim>\<open>upper\<close> take the table as a parameter \<open>up\<close>,
  the uppercase text of one code point.
\<close>

definition py_upper :: "(nat \<Rightarrow> pystr) \<Rightarrow> pystr \<Rightarrow> pystr" where
  "py_upper up s = concat (map up s)"

text \<open>What every table of \<^verbatim>\<open>str.upper\<close> does on ASCII.\<close>

definition ascii_upper :: "nat \<Rightarrow> nat" where
  "ascii_upper c = (if ascii_lower_letter c then c - 32 else c)"

definition upper_on_ascii :: "(nat \<Rightarrow> pystr) \<Rightarrow> bool" where
  "upper_on_ascii up = (\<forall>c. c < 128 \<longrightarrow> up c = [ascii_upper c])"

text \<open>
  Entries of the table for closed examples: the ASCII letters, the two non-ASCII letters
  with an ASCII uppercase that the character screen of \<open>is_valid_format\<close> lets through
  (U+0131 gives \<open>I\<close>, U+017F gives \<open>S\<close>), and U+00DF. The decimal digits of every script,
  U+0130 and U+212A are their own uppercase. Letters not listed here are not covered by
  this instance, and no general fact below uses it.
\<close>

definition unicode_upper :: "nat \<Rightarrow> pystr" where
  "unicode_upper c =
     (if ascii_lower_letter c then [c - 32]
      else if c = 0x131 then [73]
      else if c = 0x17f then [83]
      else if c = 0xdf then [83, 83]
      else [c])"

definition is_ascii :: "pystr \<Rightarrow> bool" where
  "is_ascii s = list_all (\<lambda>c. c < 128) s"

section \<open>Identifier codec: \<^verbatim>\<open>CnpjUtils\<close>\<close>

text \<open>
  The compiled patterns of the class, each as the predicate it decides.
  \<^verbatim>\<open>MASK_CHARACTERS = [./-]\<close> and \<^verbatim>\<open>INVALID_CHARACTERS = [^A-Z\d./-]\<close> (with
  \<^verbatim>\<open>IGNORECASE\<close>) are classes of one code point.
  \<^verbatim>\<open>FULL_CNPJ_PATTERN = ^[A-Z\d]{12}\d{2}$\<close> is used with \<^verbatim>\<open>match\<close>: fourteen code points
  of the right classes, followed by the end of the text or by one final newline (Python's
  \<^verbatim>\<open>$\<close>).
\<close>

definition MASK_CHARACTERS :: "nat \<Rightarrow> bool" where
  "MASK_CHARACTERS c = (c = 46 \<or> c = 47 \<or> c = 45)"

definition INVALID_CHARACTERS :: "nat \<Rightarrow> bool" where
  "INVALID_CHARACTERS c = (\<not> (re_A_Z_ignorecase c \<or> re_digit c \<or> MASK_CHARACTERS c))"

definition FULL_CNPJ_PATTERN :: "pystr \<Rightarrow> bool" where
  "FULL_CNPJ_PATTERN s =
     (length (take 14 s) = 14 \<and>
      list_all (\<lambda>c. ascii_upper_letter c \<or> re_digit c) (take 12 s) \<and>
      list_all re_digit (take 2 (drop 12 s)) \<and>
      (drop 14 s = [] \<or> drop 14 s = [10]))"

text \<open>
  The guard \<^verbatim>\<open>not cnpj or not cnpj.strip()\<close>, on an \<^verbatim>\<open>Optional[str]\<close>: true for
  \<^verbatim>\<open>None\<close>, for the empty text and for text of white space only.
\<close>

definition is_blank :: "pystr option \<Rightarrow> bool" where
  "is_blank cnpj = (case cnpj of None \<Rightarrow> True | Some s \<Rightarrow> s = [] \<or> py_strip s = [])"

definition remove_mask :: "(nat \<Rightarrow> pystr) \<Rightarrow> pystr option \<Rightarrow> pystr" where
  "remove_mask up cnpj =
     (if is_blank cnpj then []
      else py_upper up (filter (\<lambda>c. \<not> MASK_CHARACTERS c) (the cnpj)))"

definition is_repeated_sequence :: "pystr \<Rightarrow> bool" where
  "is_repeated_sequence cnpj =
     (case cnpj of
        [] \<Rightarrow> False
      | first_char # _ \<Rightarrow>
          if length cnpj < 2 then False else list_all (\<lambda>c. c = first_char) cnpj)"

definition is_valid_format :: "(nat \<Rightarrow> pystr) \<Rightarrow> pystr option \<Rightarrow> bool" where
  "is_valid_format up cnpj =
     (if is_blank cnpj then False
      else if list_ex INVALID_CHARACTERS (the cnpj) then False
      else let raw = remove_mask up cnpj in
        if length raw \<noteq> 14 then False
        else if \<not> FULL_CNPJ_PATTERN raw then False
        else if is_repeated_sequence raw then False
        else True)"

text \<open>
  The rule as the specification words it: \<open>strip\<close> removes the separators and
  uppercases; \<open>valid\<close> asks, after \<open>strip\<close>, for length 14, for the shape
  \<^verbatim>\<open>[A-Z0-9]{12}[0-9]{2}\<close>, and for a text that is not one character repeated.
\<close>

definition spec_strip :: "(nat \<Rightarrow> pystr) \<Rightarrow> pystr \<Rightarrow> pystr" where
  "spec_strip up s = py_upper up (filter (\<lambda>c. \<not> MASK_CHARACTERS c) s)"

definition spec_0_9 :: "nat \<Rightarrow> bool" where
  "spec_0_9 c = (48 \<le> c \<and> c \<le> 57)"

definition spec_A_Z_0_9 :: "nat \<Rightarrow> bool" where
  "spec_A_Z_0_9 c = ((65 \<le> c \<and> c \<le> 90) \<or> (48 \<le> c \<and> c \<le> 57))"

definition spec_valid :: "(nat \<Rightarrow> pystr) \<Rightarrow> pystr \<Rightarrow> bool" where
  "spec_valid up s =
     (let t = spec_strip up s in
      length t = 14 \<and>
      list_all spec_A_Z_0_9 (take 12 t) \<and> list_all spec_0_9 (drop 12 t) \<and>
      t \<noteq> replicate (length t) (hd t))"

text \<open>
  The same rule with the two changes the code forces: the text holds no character
  outside letters, decimal digits and separators (the screen \<open>INVALID_CHARACTERS\<close>), and
  a digit is any decimal digit of Unicode, as \<^verbatim>\<open>\d\<close> reads it.
\<close>

definition amended_valid :: "(nat \<Rightarrow> pystr) \<Rightarrow> pystr \<Rightarrow> bool" where
  "amended_valid up s =
     (list_all (\<lambda>c. re_A_Z_ignorecase c \<or> re_digit c \<or> MASK_CHARACTERS c) s \<and>
      (let t = spec_strip up s in
       length t = 14 \<and>
       list_all (\<lambda>c. ascii_upper_letter c \<or> re_digit c) (take 12 t) \<and>
       list_all re_digit (drop 12 t) \<and>
       t \<noteq> replicate (length t) (hd t)))"

section \<open>JSON values and the \<^verbatim>\<open>json\<close> module\<close>

text \<open>
  The values \<^verbatim>\<open>json.loads\<close> returns: \<^verbatim>\<open>None\<close>, \<^verbatim>\<open>bool\<close>, \<^verbatim>\<open>int\<close> (unbounded),
  \<^verbatim>\<open>float\<close>, \<^verbatim>\<open>str\<close>, \<^verbatim>\<open>list\<close> and \<^verbatim>\<open>dict\<close>. A \<^verbatim>\<open>dict\<close> keeps its keys in
  insertion order and holds each key once: it is an association list with distinct keys.
  A \<^verbatim>\<open>float\<close> is carried as the text that \<^verbatim>\<open>json.dumps\<close> prints for it (its
  \<^verbatim>\<open>repr\<close>, or \<open>NaN\<close>, \<open>Infinity\<close>, \<open>-Infinity\<close>); the conversion of a number literal to
  a double and back to that text is a parameter \<open>fl\<close> of the parser, since binary
  floating point itself is not modelled.
\<close>

datatype json =
    JNull
  | JBool bool
  | JInt int
  | JFloat pystr
  | JStr pystr
  | JArr "json list"
  | JObj "(pystr \<times> json) list"

text \<open>\<^verbatim>\<open>d.get(k)\<close> and \<^verbatim>\<open>d[k] = v\<close> on a \<^verbatim>\<open>dict\<close>.\<close>

definition dict_get :: "(pystr \<times> json) list \<Rightarrow> pystr \<Rightarrow> json option" where
  "dict_get d k = map_of d k"

primrec dict_set :: "(pystr \<times> json) list \<Rightarrow> pystr \<Rightarrow> json \<Rightarrow> (pystr \<times> json) list" where
  "dict_set [] k v = [(k, v)]"
| "dict_set (p # ps) k v = (if fst p = k then (k, v) # ps else p # dict_set ps k v)"

text \<open>Truth value of a Python object, as \<^verbatim>\<open>if not cnpj\<close> tests it.\<close>

definition py_truthy :: "json \<Rightarrow> bool" where
  "py_truthy v =
     (case v of
        JNull \<Rightarrow> False
      | JBool b \<Rightarrow> b
      | JInt n \<Rightarrow> n \<noteq> 0
      | JFloat t \<Rightarrow> t \<noteq> str ''0.0'' \<and> t \<noteq> str ''-0.0''
      | JStr s \<Rightarrow> s \<noteq> []
      | JArr xs \<Rightarrow> xs \<noteq> []
      | JObj d \<Rightarrow> d \<noteq> [])"

subsection \<open>\<^verbatim>\<open>json.loads\<close>\<close>

definition json_ws :: "nat \<Rightarrow> bool" where
  "json_ws c = (c = 32 \<or> c = 9 \<or> c = 10 \<or> c = 13)"

definition skip_ws :: "pystr \<Rightarrow> pystr" where
  "skip_ws s = dropWhile json_ws s"

definition json_digit :: "nat \<Rightarrow> bool" where
  "json_digit c = (48 \<le> c \<and> c \<le> 57)"

definition hex_val :: "nat \<Rightarrow> nat option" where
  "hex_val c =
     (if 48 \<le> c \<and> c \<le> 57 then Some (c - 48)
      else if 97 \<le> c \<and> c \<le> 102 then Some (c - 87)
      else if 65 \<le> c \<and> c \<le> 70 then Some (c - 55)
      else None)"

text \<open>The four hexadecimal digits of a \<^verbatim>\<open>\uXXXX\<close> escape, at the head of \<open>s\<close>.\<close>

definition uXXXX :: "pystr \<Rightarrow> nat option" where
  "uXXXX s =
     (case map hex_val (take 4 s) of
        [Some a, Some b, Some c, Some d] \<Rightarrow> Some (((a * 16 + b) * 16 + c) * 16 + d)
      | _ \<Rightarrow> None)"

definition is_high_surrogate :: "nat \<Rightarrow> bool" where
  "is_high_surrogate c = (0xD800 \<le> c \<and> c \<le> 0xDBFF)"

definition is_low_surrogate :: "nat \<Rightarrow> bool" where
  "is_low_surrogate c = (0xDC00 \<le> c \<and> c \<le> 0xDFFF)"

definition join_surrogates :: "nat \<Rightarrow> nat \<Rightarrow> nat" where
  "join_surrogates hi lo = 0x10000 + ((hi - 0xD800) * 1024 + (lo - 0xDC00))"

definition simple_escape :: "nat \<Rightarrow> nat option" where
  "simple_escape e =
     (if e = 34 then Some 34
      else if e = 92 then Some 92
      else if e = 47 then Some 47
      else if e = 98 then Some 8
      else if e = 102 then Some 12
      else if e = 110 then Some 10
      else if e = 114 then Some 13
      else if e = 116 then Some 9
      else None)"

definition cons_chunk :: "nat \<Rightarrow> (pystr \<times> pystr) option \<Rightarrow> (pystr \<times> pystr) option" where
  "cons_chunk c r = (case r of None \<Rightarrow> None | Some (t, rest) \<Rightarrow> Some (c # t, rest))"

text \<open>
  \<^verbatim>\<open>scanstring\<close> in strict mode, started after the opening quote: the decoded text and
  what follows the closing quote. A raw control character, an unknown escape, a short or
  non-hexadecimal \<^verbatim>\<open>\u\<close> escape and a missing closing quote raise; an escaped high
  surrogate followed by an escaped low surrogate is one code point.
\<close>

fun scanstring :: "pystr \<Rightarrow> (pystr \<times> pystr) option" where
  "scanstring [] = None"
| "scanstring (c # cs) =
     (if c = 34 then Some ([], cs)
      else if c = 92 then
        (case cs of
           [] \<Rightarrow> None
         | e # es \<Rightarrow>
             if e = 117 then
               (case uXXXX es of
                  None \<Rightarrow> None
                | Some hi \<Rightarrow>
                    if is_high_surrogate hi \<and> take 2 (drop 4 es) = [92, 117] then
                      (case uXXXX (drop 6 es) of
                         None \<Rightarrow> None
                       | Some lo \<Rightarrow>
                           if is_low_surrogate lo
                           then cons_chunk (join_surrogates hi lo) (scanstring (drop 10 es))
                           else cons_chunk hi (scanstring (drop 4 es)))
                    else cons_chunk hi (scanstring (drop 4 es)))
             else
               (case simple_escape e of
                  None \<Rightarrow> None
                | Some ch \<Rightarrow> cons_chunk ch (scanstring es)))
      else if c < 32 then None
      else cons_chunk c (scanstring cs))"

text \<open>
  The number pattern \<^verbatim>\<open>(-?(?:0|[1-9][0-9]*))(\.[0-9]+)?([eE][-+]?[0-9]+)?\<close>, group by
  group. A fraction or an exponent that does not match in full is left unread.
\<close>

definition scan_sign :: "pystr \<Rightarrow> pystr \<times> pystr" where
  "scan_sign s = (case s of [] \<Rightarrow> ([], s) | c # r \<Rightarrow> if c = 45 then ([45], r) else ([], s))"

definition scan_int_part :: "pystr \<Rightarrow> (pystr \<times> pystr) option" where
  "scan_int_part s =
     (case s of
        [] \<Rightarrow> None
      | c # cs \<Rightarrow>
          if c = 48 then Some ([48], cs)
          else if json_digit c then Some (c # takeWhile json_digit cs, dropWhile json_digit cs)
          else None)"

definition scan_frac :: "pystr \<Rightarrow> pystr \<times> pystr" where
  "scan_frac s =
     (case s of
        c # d # r \<Rightarrow>
          if c = 46 \<and> json_digit d
          then (c # d # takeWhile json_digit r, dropWhile json_digit r)
          else ([], s)
      | _ \<Rightarrow> ([], s))"

definition scan_exp_sign :: "pystr \<Rightarrow> pystr \<times> pystr" where
  "scan_exp_sign s =
     (case s of [] \<Rightarrow> ([], s) | c # r \<Rightarrow> if c = 45 \<or> c = 43 then ([c], r) else ([], s))"

definition scan_exp :: "pystr \<Rightarrow> pystr \<times> pystr" where
  "scan_exp s =
     (case s of
        [] \<Rightarrow> ([], s)
      | e # r \<Rightarrow>
          if e = 101 \<or> e = 69 then
            (case scan_exp_sign r of
               (sg, r') \<Rightarrow>
                 (case r' of
                    [] \<Rightarrow> ([], s)
                  | d # r'' \<Rightarrow>
                      if json_digit d
                      then (e # sg @ d # takeWhile json_digit r'', dropWhile json_digit r'')
                      else ([], s)))
          else ([], s))"

text \<open>The three groups and the rest of the text.\<close>

definition match_number :: "pystr \<Rightarrow> (pystr \<times> pystr \<times> pystr \<times> pystr) option" where
  "match_number s =
     (case scan_sign s of
        (sg, s1) \<Rightarrow>
          (case scan_int_part s1 of
             None \<Rightarrow> None
           | Some (ip, s2) \<Rightarrow>
               (case scan_frac s2 of
                  (fr, s3) \<Rightarrow>
                    (case scan_exp s3 of
                       (ex, s4) \<Rightarrow> Some (sg @ ip, fr, ex, s4)))))"

text \<open>\<^verbatim>\<open>int(text)\<close> on the integer group, and \<^verbatim>\<open>str(n)\<close> back.\<close>

definition digits_value :: "pystr \<Rightarrow> nat" where
  "digits_value ds = foldl (\<lambda>a d. 10 * a + (d - 48)) 0 ds"

definition py_int :: "pystr \<Rightarrow> int" where
  "py_int t =
     (case t of
        [] \<Rightarrow> 0
      | c # r \<Rightarrow> if c = 45 then - int (digits_value r) else int (digits_value t))"

fun nat_digits :: "nat \<Rightarrow> pystr" where
  "nat_digits n = (if n < 10 then [48 + n] else nat_digits (n div 10) @ [48 + n mod 10])"

declare nat_digits.simps [simp del]

definition int_str :: "int \<Rightarrow> pystr" where
  "int_str n = (if n < 0 then 45 # nat_digits (nat (- n)) else nat_digits (nat n))"

text \<open>
  The scanner. Each call spends one unit of \<open>fuel\<close>; \<open>json_loads\<close> below gives it more
  than any text can use, so that running out never happens there. \<open>None\<close> is the
  \<^verbatim>\<open>JSONDecodeError\<close> of the source.
\<close>

fun parse_value :: "(pystr \<Rightarrow> pystr) \<Rightarrow> nat \<Rightarrow> pystr \<Rightarrow> (json \<times> pystr) option"
  and parse_array_items :: "(pystr \<Rightarrow> pystr) \<Rightarrow> nat \<Rightarrow> pystr \<Rightarrow> (json list \<times> pystr) option"
  and parse_object_items ::
    "(pystr \<Rightarrow> pystr) \<Rightarrow> nat \<Rightarrow> pystr \<Rightarrow> (pystr \<times> json) list \<Rightarrow> ((pystr \<times> json) list \<times> pystr) option"
where
  "parse_value fl 0 s = None"
| "parse_value fl (Suc n) s =
     (case s of
        [] \<Rightarrow> None
      | c # cs \<Rightarrow>
          if c = 34 then
            (case scanstring cs of None \<Rightarrow> None | Some (t, r) \<Rightarrow> Some (JStr t, r))
          else if c = 123 then
            (case skip_ws cs of
               [] \<Rightarrow> None
             | c1 # r1 \<Rightarrow>
                 if c1 = 125 then Some (JObj [], r1)
                 else (case parse_object_items fl n (c1 # r1) [] of
                         None \<Rightarrow> None
                       | Some (d, r) \<Rightarrow> Some (JObj d, r)))
          else if c = 91 then
            (case skip_ws cs of
               [] \<Rightarrow> None
             | c1 # r1 \<Rightarrow>
                 if c1 = 93 then Some (JArr [], r1)
                 else (case parse_array_items fl n (c1 # r1) of
                         None \<Rightarrow> None
                       | Some (vs, r) \<Rightarrow> Some (JArr vs, r)))
          else if take 4 s = str ''null'' then Some (JNull, drop 4 s)
          else if take 4 s = str ''true'' then Some (JBool True, drop 4 s)
          else if take 5 s = str ''false'' then Some (JBool False, drop 5 s)
          else if take 3 s = str ''NaN'' then Some (JFloat (str ''NaN''), drop 3 s)
          else if take 8 s = str ''Infinity'' then Some (JFloat (str ''Infinity''), drop 8 s)
          else if take 9 s = str ''-Infinity'' then Some (JFloat (str ''-Infinity''), drop 9 s)
          else
            (case match_number s of
               None \<Rightarrow> None
             | Some (ip, fr, ex, r) \<Rightarrow>
                 if fr = [] \<and> ex = [] then Some (JInt (py_int ip), r)
                 else Some (JFloat (fl (ip @ fr @ ex)), r)))"
| "parse_array_items fl 0 s = None"
| "parse_array_items fl (Suc n) s =
     (case parse_value fl n s of
        None \<Rightarrow> None
      | Some (v, r) \<Rightarrow>
          (case skip_ws r of
             [] \<Rightarrow> None
           | c # r1 \<Rightarrow>
               if c = 93 then Some ([v], r1)
               else if c = 44 then
                 (case parse_array_items fl n (skip_ws r1) of
                    None \<Rightarrow> None
                  | Some (vs, r2) \<Rightarrow> Some (v # vs, r2))
               else None))"
| "parse_object_items fl 0 s d = None"
| "parse_object_items fl (Suc n) s d =
     (case s of
        [] \<Rightarrow> None
      | q # cs \<Rightarrow>
          if q \<noteq> 34 then None
          else
            (case scanstring cs of
               None \<Rightarrow> None
             | Some (key, r) \<Rightarrow>
                 (case skip_ws r of
                    [] \<Rightarrow> None
                  | c # r1 \<Rightarrow>
                      if c \<noteq> 58 then None
                      else
                        (case parse_value fl n (skip_ws r1) of
                           None \<Rightarrow> None
                         | Some (v, r2) \<Rightarrow>
                             (case skip_ws r2 of
                                [] \<Rightarrow> None
                              | c2 # r3 \<Rightarrow>
                                  if c2 = 125 then Some (dict_set d key v, r3)
                                  else if c2 = 44
                                  then parse_object_items fl n (skip_ws r3) (dict_set d key v)
                                  else None)))))"

text \<open>
  \<^verbatim>\<open>json.loads(s)\<close> on a \<^verbatim>\<open>str\<close>: a leading byte-order mark is refused, white space
  around the value is skipped, anything else after the value is \<^verbatim>\<open>Extra data\<close>.
\<close>

definition json_loads :: "(pystr \<Rightarrow> pystr) \<Rightarrow> pystr \<Rightarrow> json option" where
  "json_loads fl s =
     (case s of
        [] \<Rightarrow> None
      | c # _ \<Rightarrow>
          if c = 0xFEFF then None
          else
            (case parse_value fl (2 * length s + 2) (skip_ws s) of
               None \<Rightarrow> None
             | Some (v, r) \<Rightarrow> if skip_ws r = [] then Some v else None))"

subsection \<open>\<^verbatim>\<open>json.dumps(obj, ensure_ascii=False, separators=(',', ':'))\<close>\<close>

definition hex_digit :: "nat \<Rightarrow> nat" where
  "hex_digit n = (if n < 10 then 48 + n else 87 + n)"

text \<open>
  With \<^verbatim>\<open>ensure_ascii=False\<close> only the quote, the backslash and the control characters
  below U+0020 are escaped.
\<close>

definition escape_char :: "nat \<Rightarrow> pystr" where
  "escape_char c =
     (if c = 34 then [92, 34]
      else if c = 92 then [92, 92]
      else if c = 10 then [92, 110]
      else if c = 13 then [92, 114]
      else if c = 9 then [92, 116]
      else if c = 8 then [92, 98]
      else if c = 12 then [92, 102]
      else if c < 32 then [92, 117, 48, 48, hex_digit (c div 16), hex_digit (c mod 16)]
      else [c])"

definition encode_basestring :: "pystr \<Rightarrow> pystr" where
  "encode_basestring s = 34 # concat (map escape_char s) @ [34]"

fun join_items :: "pystr list \<Rightarrow> pystr" where
  "join_items [] = []"
| "join_items [x] = x"
| "join_items (x # y # ys) = x @ 44 # join_items (y # ys)"

fun json_dumps :: "json \<Rightarrow> pystr" where
  "json_dumps JNull = str ''null''"
| "json_dumps (JBool b) = (if b then str ''true'' else str ''false'')"
| "json_dumps (JInt n) = int_str n"
| "json_dumps (JFloat t) = t"
| "json_dumps (JStr s) = encode_basestring s"
| "json_dumps (JArr vs) = 91 # join_items (map json_dumps vs) @ [93]"
| "json_dumps (JObj d) =
     123 # join_items (map (\<lambda>(k, v). encode_basestring k @ 58 # json_dumps v) d) @ [125]"

section \<open>JSON canonicalizer: \<^verbatim>\<open>JsonCleanupUtils\<close>\<close>

text \<open>\<^verbatim>\<open>re.sub(r"\s+", " ", t)\<close>: every maximal run of white space becomes one space.\<close>

function sub_spaces :: "pystr \<Rightarrow> pystr" where
  "sub_spaces [] = []"
| "sub_spaces (c # cs) =
     (if py_isspace c then 32 # sub_spaces (dropWhile py_isspace cs)
      else c # sub_spaces cs)"
  by pat_completeness auto
termination
  by (relation "measure length") (auto simp: le_imp_less_Suc length_dropWhile_le)

definition normalize_spaces :: "pystr \<Rightarrow> pystr" where
  "normalize_spaces input_str =
     (if input_str = [] then [] else sub_spaces (py_strip input_str))"

fun clean_element :: "json \<Rightarrow> json" where
  "clean_element (JObj d) = JObj (map (\<lambda>(key, value). (key, clean_element value)) d)"
| "clean_element (JArr xs) = JArr (map clean_element xs)"
| "clean_element (JStr s) = JStr (normalize_spaces s)"
| "clean_element v = v"

text \<open>
  \<^verbatim>\<open>clean_json_spaces\<close>: any exception of the \<^verbatim>\<open>try\<close> block returns the input as it
  is. The block can only raise in \<^verbatim>\<open>json.loads\<close>.
\<close>

definition clean_json_spaces :: "(pystr \<Rightarrow> pystr) \<Rightarrow> pystr \<Rightarrow> pystr" where
  "clean_json_spaces fl json_content =
     (case json_loads fl json_content of
        None \<Rightarrow> json_content
      | Some data \<Rightarrow> json_dumps (clean_element data))"

subsection \<open>Values of \<^verbatim>\<open>json.loads\<close>, and the float parameter\<close>

text \<open>
  A float text is canonical when reading it gives the same text back: it is one of the
  three constants, or a number literal with a fraction or an exponent that \<open>fl\<close> maps to
  itself.
\<close>

definition canonical_float :: "(pystr \<Rightarrow> pystr) \<Rightarrow> pystr \<Rightarrow> bool" where
  "canonical_float fl t =
     (t = str ''NaN'' \<or> t = str ''Infinity'' \<or> t = str ''-Infinity'' \<or>
      (case match_number t of
         None \<Rightarrow> False
       | Some (ip, fr, ex, r) \<Rightarrow> r = [] \<and> (fr \<noteq> [] \<or> ex \<noteq> []) \<and> fl (ip @ fr @ ex) = t))"

text \<open>
  What the embedding asks of \<open>fl\<close>, and what Python's \<^verbatim>\<open>float\<close> and its \<^verbatim>\<open>repr\<close>
  give: the text printed for the float of a literal is canonical (\<^verbatim>\<open>float(repr(x)) == x\<close>,
  and \<^verbatim>\<open>repr\<close> always shows a fraction or an exponent; an overflowing literal prints as
  \<open>Infinity\<close> or \<open>-Infinity\<close>).
\<close>

definition float_repr_ok :: "(pystr \<Rightarrow> pystr) \<Rightarrow> bool" where
  "float_repr_ok fl =
     (\<forall>s. case match_number s of
            None \<Rightarrow> True
          | Some (ip, fr, ex, r) \<Rightarrow> fr = [] \<and> ex = [] \<or> canonical_float fl (fl (ip @ fr @ ex)))"

text \<open>
  The values \<^verbatim>\<open>json.loads\<close> can return: floats are canonical and every \<^verbatim>\<open>dict\<close> has
  distinct keys.
\<close>

fun py_value :: "(pystr \<Rightarrow> pystr) \<Rightarrow> json \<Rightarrow> bool" where
  "py_value fl (JFloat t) = canonical_float fl t"
| "py_value fl (JArr vs) = list_all (py_value fl) vs"
| "py_value fl (JObj d) = (distinct (map fst d) \<and> list_all (\<lambda>(k, v). py_value fl v) d)"
| "py_value fl v = True"

text \<open>What can follow a value in the output of \<^verbatim>\<open>dumps\<close>: nothing, a comma or a closing bracket.\<close>

definition value_end :: "pystr \<Rightarrow> bool" where
  "value_end r = (case r of [] \<Rightarrow> True | c # _ \<Rightarrow> c = 44 \<or> c = 93 \<or> c = 125)"

text \<open>The first character of a value in the output of \<^verbatim>\<open>dumps\<close>.\<close>

definition value_start :: "nat \<Rightarrow> bool" where
  "value_start c =
     (c = 34 \<or> c = 123 \<or> c = 91 \<or> c = 110 \<or> c = 116 \<or> c = 102 \<or> c = 78 \<or> c = 73 \<or>
      c = 45 \<or> json_digit c)"

text \<open>Fuel that is enough to read a value back.\<close>

fun weight :: "json \<Rightarrow> nat" where
  "weight (JArr vs) = Suc (sum_list (map (\<lambda>v. Suc (weight v)) vs))"
| "weight (JObj d) = Suc (sum_list (map (\<lambda>(k, v). Suc (weight v)) d))"
| "weight v = 1"

text \<open>An instance of the float parameter for closed examples: every literal prints as \<open>1.5\<close>.\<close>

definition fl_const :: "pystr \<Rightarrow> pystr" where
  "fl_const t = str ''1.5''"

section \<open>NDJSON processor: reading a line\<close>

text \<open>
  \<^verbatim>\<open>NdjsonProcessor._extract_cnpj_and_json\<close>. The whole body is inside \<^verbatim>\<open>try\<close>, and
  \<^verbatim>\<open>except Exception\<close> returns \<^verbatim>\<open>(None, json_line)\<close>. Besides a line that does not
  parse, the block raises when the parsed value is not a \<^verbatim>\<open>dict\<close>: the test
  \<^verbatim>\<open>"json_output" in data\<close> is a \<^verbatim>\<open>TypeError\<close> on a number, a boolean and \<^verbatim>\<open>None\<close>;
  on a list or a text it is a membership test, after which either
  \<^verbatim>\<open>data["json_output"]\<close> is a \<^verbatim>\<open>TypeError\<close> or \<^verbatim>\<open>data.get\<close> is an
  \<^verbatim>\<open>AttributeError\<close>. The same \<^verbatim>\<open>AttributeError\<close> comes when the value under
  \<^verbatim>\<open>json_output\<close> is not a \<^verbatim>\<open>dict\<close>. The identifier is whatever value the key
  \<open>cnpj\<close> holds, not necessarily a text.
\<close>

definition extract_cnpj_and_json :: "(pystr \<Rightarrow> pystr) \<Rightarrow> pystr \<Rightarrow> json option \<times> pystr" where
  "extract_cnpj_and_json fl json_line =
     (case json_loads fl json_line of
        None \<Rightarrow> (None, json_line)
      | Some data \<Rightarrow>
          (case data of
             JObj d \<Rightarrow>
               (case (case dict_get d (str ''json_output'') of
                        Some el \<Rightarrow> (el, json_dumps el)
                      | None \<Rightarrow> (data, json_line)) of
                  (data_element, raw_json) \<Rightarrow>
                    (case data_element of
                       JObj de \<Rightarrow>
                         (case dict_get de (str ''cnpj'') of
                            None \<Rightarrow> (None, json_line)
                          | Some c \<Rightarrow>
                              if \<not> py_truthy c then (None, json_line)
                              else (Some c, clean_json_spaces fl raw_json))
                     | _ \<Rightarrow> (None, json_line)))
           | _ \<Rightarrow> (None, json_line)))"

text \<open>
  \<^verbatim>\<open>ProcessedItem\<close>. The fields are \<open>cnpj\<close>, \<open>json\<close> and \<open>hash\<close> in the source; the
  record names them after the parameters of the constructor.
\<close>

record processed_item =
  item_cnpj :: json
  json_data :: pystr
  hash_value :: pystr

text \<open>
  \<^verbatim>\<open>_compute_hash\<close>: the text is encoded as UTF-8, which raises \<^verbatim>\<open>UnicodeEncodeError\<close>
  on a surrogate code point, and hashed; \<open>xxh3\<close> stands for the hexadecimal digest of
  the hash library and is a parameter.
\<close>

datatype error =
    UnicodeEncodeError
  | DatabaseNotInitialized
  | AttributeError
  | SqliteBindingError
  | IntegrityError
  | UploadFailed

definition utf8_encodable :: "pystr \<Rightarrow> bool" where
  "utf8_encodable s = list_all (\<lambda>c. \<not> (0xD800 \<le> c \<and> c \<le> 0xDFFF)) s"

definition compute_hash :: "(pystr \<Rightarrow> pystr) \<Rightarrow> pystr \<Rightarrow> error + pystr" where
  "compute_hash xxh3 json_str =
     (if utf8_encodable json_str then Inr (xxh3 json_str) else Inl UnicodeEncodeError)"

text \<open>
  \<^verbatim>\<open>process_line\<close>, the function mapped over the lines of the file: \<open>Inr None\<close> when
  the line gives no item, \<open>Inr (Some item)\<close> when it gives one, \<open>Inl e\<close> when it raises.
\<close>

definition process_line ::
  "(pystr \<Rightarrow> pystr) \<Rightarrow> (pystr \<Rightarrow> pystr) \<Rightarrow> pystr \<Rightarrow> error + processed_item option" where
  "process_line fl xxh3 line0 =
     (let line = py_strip line0 in
      if line = [] then Inr None
      else
        (case extract_cnpj_and_json fl line of
           (None, _) \<Rightarrow> Inr None
         | (Some c, clean_json) \<Rightarrow>
             if \<not> py_truthy c then Inr None
             else
               (case compute_hash xxh3 clean_json of
                  Inl e \<Rightarrow> Inl e
                | Inr h \<Rightarrow>
                    Inr (Some \<lparr>item_cnpj = c, json_data = clean_json, hash_value = h\<rparr>))))"

text \<open>
  \<^verbatim>\<open>_read_and_process_ndjson\<close> on the lines of the file, in order. An exception of
  any line is caught by the \<^verbatim>\<open>except\<close> of the function, which prints it and returns
  the empty list the function started with.
\<close>

definition read_and_process_ndjson ::
  "(pystr \<Rightarrow> pystr) \<Rightarrow> (pystr \<Rightarrow> pystr) \<Rightarrow> pystr list \<Rightarrow> processed_item list" where
  "read_and_process_ndjson fl xxh3 lines =
     (let results = map (process_line fl xxh3) lines in
      if list_ex isl results then []
      else concat (map (\<lambda>r. case r of Inr (Some item) \<Rightarrow> [item] | _ \<Rightarrow> []) results))"

text \<open>
  The files written for a list of items, in order: \<^verbatim>\<open>f"{item.cnpj}.json"\<close> with body
  \<^verbatim>\<open>item.json\<close>. A file is recorded by the identifier that names it and by its body.
\<close>

definition write_json_files :: "processed_item list \<Rightarrow> (json \<times> pystr) list" where
  "write_json_files items = map (\<lambda>item. (item_cnpj item, json_data item)) items"




text \<open>
  The condition of C10, in its words: the parsed object, after unwrapping an optional
  \<open>json_output\<close> envelope, has a non-empty \<open>cnpj\<close> field. Non-empty is read as Python
  reads \<^verbatim>\<open>not cnpj\<close>.
\<close>

definition unwrap_envelope :: "json \<Rightarrow> json" where
  "unwrap_envelope data =
     (case data of
        JObj d \<Rightarrow> (case dict_get d (str ''json_output'') of Some el \<Rightarrow> el | None \<Rightarrow> data)
      | _ \<Rightarrow> data)"

definition has_nonempty_cnpj :: "json \<Rightarrow> bool" where
  "has_nonempty_cnpj data =
     (case unwrap_envelope data of
        JObj de \<Rightarrow> (case dict_get de (str ''cnpj'') of Some c \<Rightarrow> py_truthy c | None \<Rightarrow> False)
      | _ \<Rightarrow> False)"

definition gives_no_identifier :: "(pystr \<Rightarrow> pystr) \<Rightarrow> pystr \<Rightarrow> bool" where
  "gives_no_identifier fl s =
     (case json_loads fl s of None \<Rightarrow> True | Some data \<Rightarrow> \<not> has_nonempty_cnpj data)"

text \<open>A digest for closed examples.\<close>

definition sample_digest :: "pystr \<Rightarrow> pystr" where
  "sample_digest s = str ''0123456789abcdef''"

section \<open>Hash catalog: \<^verbatim>\<open>HashCacheManager\<close>\<close>

text \<open>
  The class attributes, as one state. \<open>rows\<close> is the table \<open>hashes\<close> (identifier to
  hash) as the open connection sees it, \<open>committed\<close> the table as of the last
  \<^verbatim>\<open>commit()\<close>. \<open>lock_held\<close> is the state of \<^verbatim>\<open>_lock\<close>, an \<^verbatim>\<open>asyncio.Lock\<close>: it is
  not re-entrant, and \<^verbatim>\<open>acquire\<close> on a held lock suspends the caller until some task
  releases it.
\<close>

record catalog =
  connection_open :: bool
  initialized :: bool
  lock_held :: bool
  current_transaction :: bool
  pending_inserts :: nat
  rows :: "pystr \<rightharpoonup> pystr"
  committed :: "pystr \<rightharpoonup> pystr"

text \<open>
  How a coroutine ends: it returns, it raises, or it stays suspended for ever on a lock
  that nobody can release (every release in the class follows an acquire of the same
  coroutine, so a lock held by a suspended coroutine stays held).
\<close>

datatype 'a outcome = Returned 'a | Raised error | Blocked

definition BATCH_SIZE :: nat where
  "BATCH_SIZE = 10000"

definition commit_batch :: "catalog \<Rightarrow> catalog" where
  "commit_batch st =
     (if current_transaction st
      then st\<lparr>committed := rows st, current_transaction := False, pending_inserts := 0\<rparr>
      else st)"

text \<open>
  Parameters of a statement. \<^verbatim>\<open>sqlite3\<close> binds \<^verbatim>\<open>None\<close>, numbers and texts; it
  raises on a list or a dict, on an integer outside 64 bits and on a text with a surrogate
  code point.
\<close>

definition sqlite_bindable :: "json \<Rightarrow> bool" where
  "sqlite_bindable c =
     (case c of
        JArr _ \<Rightarrow> False
      | JObj _ \<Rightarrow> False
      | JStr s \<Rightarrow> utf8_encodable s
      | JInt i \<Rightarrow> - (2 ^ 63) \<le> i \<and> i < 2 ^ 63
      | _ \<Rightarrow> True)"

text \<open>
  The column \<open>cnpj\<close> is declared \<^verbatim>\<open>TEXT\<close>: a number compared with it or stored in it is
  converted to its text, \<^verbatim>\<open>None\<close> is \<^verbatim>\<open>NULL\<close>. \<open>sq\<close> stands for the text SQLite gives
  a float, written as Python prints it (\<open>None\<close> for a NaN, which SQLite reads as
  \<^verbatim>\<open>NULL\<close>), and is a parameter.
\<close>

definition sqlite_text :: "(pystr \<Rightarrow> pystr option) \<Rightarrow> json \<Rightarrow> pystr option" where
  "sqlite_text sq c =
     (case c of
        JStr s \<Rightarrow> Some s
      | JInt i \<Rightarrow> Some (int_str i)
      | JBool b \<Rightarrow> Some (if b then str ''1'' else str ''0'')
      | JFloat t \<Rightarrow> sq t
      | _ \<Rightarrow> None)"

text \<open>
  \<^verbatim>\<open>existing_hashes\<close> of one probe: the rows whose identifier is among the parameters,
  keyed by the text of the row.
\<close>

definition existing_hashes ::
  "(pystr \<Rightarrow> pystr option) \<Rightarrow> (pystr \<rightharpoonup> pystr) \<Rightarrow> processed_item list \<Rightarrow> (pystr \<rightharpoonup> pystr)" where
  "existing_hashes sq tbl batch =
     (\<lambda>k. if list_ex (\<lambda>item. sqlite_text sq (item_cnpj item) = Some k) batch then tbl k else None)"

text \<open>
  The two tests of the inner loop: \<^verbatim>\<open>item.cnpj not in existing_hashes\<close>, else
  \<^verbatim>\<open>existing_hashes[item.cnpj] != item.hash\<close>. The keys of the dict are texts, and an
  identifier that is not a text equals none of them.
\<close>

definition yielded :: "(pystr \<rightharpoonup> pystr) \<Rightarrow> processed_item \<Rightarrow> bool" where
  "yielded existing item =
     (case item_cnpj item of
        JStr s \<Rightarrow> (case existing s of None \<Rightarrow> True | Some h \<Rightarrow> h \<noteq> hash_value item)
      | _ \<Rightarrow> True)"

text \<open>The loop \<^verbatim>\<open>for i in range(0, len(items), 500)\<close>, with what it yields in order.\<close>

function probe_chunks ::
  "(pystr \<Rightarrow> pystr option) \<Rightarrow> (pystr \<rightharpoonup> pystr) \<Rightarrow> processed_item list \<Rightarrow> error + processed_item list" where
  "probe_chunks sq tbl items =
     (if items = [] then Inr []
      else
        (let batch = take 500 items in
         if list_ex (\<lambda>item. \<not> sqlite_bindable (item_cnpj item)) batch then Inl SqliteBindingError
         else
           (case probe_chunks sq tbl (drop 500 items) of
              Inl e \<Rightarrow> Inl e
            | Inr later \<Rightarrow> Inr (filter (yielded (existing_hashes sq tbl batch)) batch @ later))))"
  by pat_completeness auto
termination
  by (relation "measure (\<lambda>(sq, tbl, items). length items)") auto

declare probe_chunks.simps [simp del]

text \<open>
  \<^verbatim>\<open>get_items_to_process_async\<close>, with the items its consumer collects. The lock is
  taken for the whole probe and released at the end, also when a statement raises.
\<close>

definition get_items_to_process ::
  "(pystr \<Rightarrow> pystr option) \<Rightarrow> catalog \<Rightarrow> processed_item list \<Rightarrow> processed_item list outcome \<times> catalog" where
  "get_items_to_process sq st items =
     (if \<not> initialized st \<or> \<not> connection_open st then (Raised DatabaseNotInitialized, st)
      else if lock_held st then (Blocked, st)
      else
        (case probe_chunks sq (rows st) items of
           Inl e \<Rightarrow> (Raised e, st)
         | Inr ys \<Rightarrow> (Returned ys, st)))"

text \<open>
  \<^verbatim>\<open>add_async\<close>: \<^verbatim>\<open>await cls._lock.acquire()\<close> comes first. The statement raises
  when a parameter cannot be bound and when the identifier is \<^verbatim>\<open>NULL\<close> (the column is
  \<^verbatim>\<open>NOT NULL\<close>); otherwise the row of the identifier's text is inserted or replaced. The
  \<^verbatim>\<open>finally\<close> releases the lock.
\<close>

definition add_async ::
  "(pystr \<Rightarrow> pystr option) \<Rightarrow> catalog \<Rightarrow> json \<Rightarrow> pystr \<Rightarrow> unit outcome \<times> catalog" where
  "add_async sq st c h =
     (if lock_held st then (Blocked, st)
      else
        (let st1 = st\<lparr>lock_held := True, current_transaction := True\<rparr> in
         if \<not> connection_open st1 then (Raised AttributeError, st1\<lparr>lock_held := False\<rparr>)
         else if \<not> sqlite_bindable c \<or> \<not> utf8_encodable h
         then (Raised SqliteBindingError, st1\<lparr>lock_held := False\<rparr>)
         else
           (case sqlite_text sq c of
              None \<Rightarrow> (Raised IntegrityError, st1\<lparr>lock_held := False\<rparr>)
            | Some k \<Rightarrow>
                (let st2 = st1\<lparr>rows := (rows st1)(k \<mapsto> h),
                               pending_inserts := pending_inserts st1 + 1\<rparr>;
                     st3 = (if BATCH_SIZE \<le> pending_inserts st2 then commit_batch st2 else st2)
                 in (Returned (), st3\<lparr>lock_held := False\<rparr>)))))"

text \<open>The loop of \<^verbatim>\<open>add_batch_async\<close>: it stops at the first call that does not return.\<close>

fun add_each ::
  "(pystr \<Rightarrow> pystr option) \<Rightarrow> catalog \<Rightarrow> processed_item list \<Rightarrow> unit outcome \<times> catalog" where
  "add_each sq st [] = (Returned (), st)"
| "add_each sq st (item # items) =
     (case add_async sq st (item_cnpj item) (hash_value item) of
        (Returned u, st') \<Rightarrow> add_each sq st' items
      | (Raised e, st') \<Rightarrow> (Raised e, st')
      | (Blocked, st') \<Rightarrow> (Blocked, st'))"

text \<open>
  \<^verbatim>\<open>add_batch_async\<close>: \<^verbatim>\<open>async with cls._lock\<close> around the loop and the final commit.
  The loop runs with the lock held. The commit raises when there is a transaction and no
  connection; leaving the \<^verbatim>\<open>async with\<close> releases the lock.
\<close>

definition add_batch ::
  "(pystr \<Rightarrow> pystr option) \<Rightarrow> catalog \<Rightarrow> processed_item list \<Rightarrow> unit outcome \<times> catalog" where
  "add_batch sq st items =
     (if lock_held st then (Blocked, st)
      else
        (case add_each sq (st\<lparr>lock_held := True\<rparr>) items of
           (Returned u, st') \<Rightarrow>
             if current_transaction st' \<and> \<not> connection_open st'
             then (Raised AttributeError, st'\<lparr>lock_held := False\<rparr>)
             else (Returned (), (commit_batch st')\<lparr>lock_held := False\<rparr>)
         | (Raised e, st') \<Rightarrow> (Raised e, st'\<lparr>lock_held := False\<rparr>)
         | (Blocked, st') \<Rightarrow> (Blocked, st')))"

section \<open>NDJSON processor: diff, write, upload, record\<close>

text \<open>
  \<^verbatim>\<open>process_ndjson_file_to_storage\<close> on the lines of the file. \<open>upload_ok\<close> is what
  \<^verbatim>\<open>RcloneClient.upload_folder_async\<close> returns. The result is how the coroutine ends,
  the catalog then, and the files written to the folder that is uploaded. The file system
  is taken to accept every file name.
\<close>

definition process_ndjson_file_to_storage ::
  "(pystr \<Rightarrow> pystr) \<Rightarrow> (pystr \<Rightarrow> pystr) \<Rightarrow> (pystr \<Rightarrow> pystr option) \<Rightarrow> bool \<Rightarrow> pystr list \<Rightarrow> catalog \<Rightarrow>
   unit outcome \<times> catalog \<times> (json \<times> pystr) list" where
  "process_ndjson_file_to_storage fl xxh3 sq upload_ok lines st =
     (let processed_data = read_and_process_ndjson fl xxh3 lines in
      if processed_data = [] then (Returned (), st, [])
      else
        (case get_items_to_process sq st processed_data of
           (Raised e, st1) \<Rightarrow> (Raised e, st1, [])
         | (Blocked, st1) \<Rightarrow> (Blocked, st1, [])
         | (Returned all_processed_items, st1) \<Rightarrow>
             if all_processed_items = [] then (Returned (), st1, [])
             else
               (let files = write_json_files all_processed_items in
                if upload_ok then
                  (case add_batch sq st1 all_processed_items of (r, st2) \<Rightarrow> (r, st2, files))
                else (Raised UploadFailed, st1, files))))"

text \<open>
  The stored hash of an item's identifier, as the inner loop can find it: the row of a
  text identifier. Then an open, empty catalog and an item.
\<close>

definition stored_hash :: "(pystr \<rightharpoonup> pystr) \<Rightarrow> processed_item \<Rightarrow> pystr option" where
  "stored_hash tbl item = (case item_cnpj item of JStr s \<Rightarrow> tbl s | _ \<Rightarrow> None)"

definition open_catalog :: catalog where
  "open_catalog =
     \<lparr>connection_open = True, initialized = True, lock_held = False,
      current_transaction = False, pending_inserts = 0,
      rows = Map.empty, committed = Map.empty\<rparr>"

definition sample_item :: processed_item where
  "sample_item =
     \<lparr>item_cnpj = JStr (str ''12345678000190''),
      json_data = str ''{\"cnpj\":\"12345678000190\"}'',
      hash_value = str ''0123456789abcdef''\<rparr>"

text \<open>A rendering of floats for closed examples.\<close>

definition sample_float_text :: "pystr \<Rightarrow> pystr option" where
  "sample_float_text t = Some t"

section \<open>Document projector: facts\<close>

lemma situacao_cadastral_case_table:
  "situacao_cadastral_case x =
     (case x of
        None \<Rightarrow> None
      | Some s \<Rightarrow> Some (case map_of status_table (lpad_str s 2 (CHR ''0'')) of
                         Some name \<Rightarrow> name
                       | None \<Rightarrow> s))"
  by (cases x) (simp_all add: situacao_cadastral_case_def lpad_def status_table_def Let_def)

lemma date_case_not_null: "date_case x \<noteq> None"
  by (cases x) (simp_all add: date_case_def matches_8_digits_def substring_def
      sql_concat_def coalesce_def)

lemma porte_empresa_case_not_null: "porte_empresa_case x \<noteq> None"
  by (simp add: porte_empresa_case_def coalesce_def split: option.splits)

lemma coalesce_not_null: "coalesce x d \<noteq> None"
  by (simp add: coalesce_def split: option.splits)

lemma coalesced_fields_never_null:
  "list_all (\<lambda>f. \<exists>t. map_of (get_json_struct_fields e emp s natz mun sd) f = Some (SText t))
     coalesced_fields"
proof -
  have t: "\<And>v. v \<noteq> None \<Longrightarrow> \<exists>t. text_val v = SText t"
    by (auto simp: text_val_def)
  show ?thesis
    by (simp add: coalesced_fields_def get_json_struct_fields_def t
        date_case_not_null porte_empresa_case_not_null coalesce_not_null)
qed

subsection \<open>Claims about the projector\<close>

text \<open>
  C5 as stated fails: the status code \<open>2\<close> is not one of the codes \<open>01, 02, 03, 04, 08\<close>
  of the table, and yet it is not passed through: the query pads it to \<open>02\<close> first and
  the document says \<open>Ativa\<close>.
\<close>

theorem situacao_cadastral_unpadded_code_counterexample:
  "map_of status_table ''2'' = None \<and>
   map_of (get_json_struct_fields (sample_estabelecimento(''situacao_cadastral'' := Some ''2''))
             null_row null_row null_row null_row None) ''situacao_cadastral''
     = Some (SText ''Ativa'')"
  by (simp add: status_table_def get_json_struct_fields_def situacao_cadastral_case_def
      lpad_def lpad_str_def text_val_def Let_def)

text \<open>
  C5, amended: the \<open>situacao_cadastral\<close> field of every document is the table entry of
  the status code padded on the left with \<open>0\<close> to two characters (a longer code is cut
  to its first two characters); when the padded code is not in the table, the field is the
  raw input, unchanged; a \<^verbatim>\<open>NULL\<close> code gives a \<^verbatim>\<open>NULL\<close> field.
\<close>

theorem situacao_cadastral_field_padded_table:
  "map_of (get_json_struct_fields e emp s natz mun sd) ''situacao_cadastral'' =
     Some (case e ''situacao_cadastral'' of
             None \<Rightarrow> SNull
           | Some c \<Rightarrow> SText (case map_of status_table (lpad_str c 2 (CHR ''0'')) of
                                Some name \<Rightarrow> name
                              | None \<Rightarrow> c))"
  by (simp add: get_json_struct_fields_def situacao_cadastral_case_table text_val_def
      split: option.splits)

theorem situacao_cadastral_field_padded_table_witness:
  "map_of (get_json_struct_fields (sample_estabelecimento(''situacao_cadastral'' := Some ''08''))
             null_row null_row null_row null_row None) ''situacao_cadastral''
     = Some (SText ''Baixada'')"
  using situacao_cadastral_field_padded_table
    [of "sample_estabelecimento(''situacao_cadastral'' := Some ''08'')"
        null_row null_row null_row null_row None]
  by (simp add: status_table_def lpad_str_def)

text \<open>
  C4 on the code: an establishment whose status and head-office columns are empty
  (\<^verbatim>\<open>NULL\<close> after the CSV load) is projected to a document whose \<open>situacao_cadastral\<close>
  and \<open>matriz_filial\<close> are \<^verbatim>\<open>NULL\<close>, not the empty string: the \<^verbatim>\<open>ELSE\<close> of these two
  \<^verbatim>\<open>CASE\<close> expressions returns the column without the \<^verbatim>\<open>COALESCE\<close> that
  \<open>porte_empresa\<close> has.
\<close>

theorem null_status_projects_to_null:
  "map_of (get_json_struct_fields sample_estabelecimento null_row null_row null_row null_row None)
     ''situacao_cadastral'' = Some SNull \<and>
   map_of (get_json_struct_fields sample_estabelecimento null_row null_row null_row null_row None)
     ''matriz_filial'' = Some SNull \<and>
   map_of (get_json_struct_fields sample_estabelecimento null_row null_row null_row null_row None)
     ''porte_empresa'' = Some (SText [])"
  by (simp add: get_json_struct_fields_def situacao_cadastral_case_def matriz_filial_case_def
      porte_empresa_case_def coalesce_def lpad_def text_val_def Let_def
      sample_estabelecimento_def null_row_def)

section \<open>Identifier codec: facts\<close>

lemma re_digit_ascii: "c < 128 \<Longrightarrow> re_digit c \<longleftrightarrow> 48 \<le> c \<and> c \<le> 57"
  by (simp add: re_digit_def nd_blocks_def)

lemma re_digit_not_space: "re_digit c \<Longrightarrow> \<not> py_isspace c"
  by (simp add: re_digit_def nd_blocks_def py_isspace_def) arith

lemma screened_not_space: "\<not> INVALID_CHARACTERS c \<Longrightarrow> \<not> MASK_CHARACTERS c \<Longrightarrow> \<not> py_isspace c"
proof -
  assume "\<not> INVALID_CHARACTERS c" "\<not> MASK_CHARACTERS c"
  then consider "re_A_Z_ignorecase c" | "re_digit c"
    by (auto simp: INVALID_CHARACTERS_def)
  then show ?thesis
  proof cases
    case 1
    then show ?thesis
      by (auto simp: re_A_Z_ignorecase_def ascii_upper_letter_def ascii_lower_letter_def
          py_isspace_def)
  next
    case 2
    then show ?thesis by (rule re_digit_not_space)
  qed
qed

lemma dropWhile_Nil_iff: "dropWhile P xs = [] \<longleftrightarrow> list_all P xs"
  by (induction xs) auto

lemma list_all_dropWhile: "list_all P (dropWhile P xs) \<longleftrightarrow> list_all P xs"
  by (induction xs) auto

lemma py_strip_Nil_iff: "py_strip s = [] \<longleftrightarrow> list_all py_isspace s"
proof -
  have "py_strip s = [] \<longleftrightarrow> list_all py_isspace (rev (dropWhile py_isspace s))"
    unfolding py_strip_def by (simp only: rev_is_Nil_conv dropWhile_Nil_iff)
  also have "\<dots> \<longleftrightarrow> list_all py_isspace (dropWhile py_isspace s)"
    by (simp add: list_all_iff)
  finally show ?thesis by (simp only: list_all_dropWhile)
qed

lemma repeated_iff_replicate:
  "list_all (\<lambda>c. c = a) xs \<longleftrightarrow> xs = replicate (length xs) a"
  by (induction xs) auto

lemma is_repeated_sequence_14:
  "length t = 14 \<Longrightarrow> is_repeated_sequence t \<longleftrightarrow> t = replicate (length t) (hd t)"
  by (cases t) (simp_all add: is_repeated_sequence_def repeated_iff_replicate)

lemma FULL_CNPJ_PATTERN_14:
  "length t = 14 \<Longrightarrow> FULL_CNPJ_PATTERN t \<longleftrightarrow>
     list_all (\<lambda>c. ascii_upper_letter c \<or> re_digit c) (take 12 t) \<and> list_all re_digit (drop 12 t)"
  by (simp add: FULL_CNPJ_PATTERN_def)

text \<open>The code and the amended rule agree on every text, whatever the uppercase table.\<close>

lemma is_valid_format_amended: "is_valid_format up (Some s) \<longleftrightarrow> amended_valid up s"
proof -
  define t where "t = spec_strip up s"
  have scr: "list_ex INVALID_CHARACTERS s \<longleftrightarrow>
             \<not> list_all (\<lambda>c. re_A_Z_ignorecase c \<or> re_digit c \<or> MASK_CHARACTERS c) s"
    by (auto simp: list_ex_iff list_all_iff INVALID_CHARACTERS_def)
  show ?thesis
  proof (cases "is_blank (Some s)")
    case True
    then have sp: "list_all py_isspace s"
      by (auto simp: is_blank_def py_strip_Nil_iff)
    have "\<not> amended_valid up s"
    proof
      assume a: "amended_valid up s"
      then have len: "length t = 14" by (simp add: amended_valid_def t_def Let_def)
      then have "filter (\<lambda>c. \<not> MASK_CHARACTERS c) s \<noteq> []"
        by (auto simp: t_def spec_strip_def py_upper_def)
      then obtain c where c: "c \<in> set s" "\<not> MASK_CHARACTERS c"
        by (auto simp: filter_empty_conv)
      with a have "\<not> INVALID_CHARACTERS c"
        by (auto simp: amended_valid_def list_all_iff INVALID_CHARACTERS_def)
      with c have "\<not> py_isspace c" by (simp add: screened_not_space)
      with sp c show False by (simp add: list_all_iff)
    qed
    with True show ?thesis by (simp add: is_valid_format_def)
  next
    case False
    then have raw: "remove_mask up (Some s) = t"
      by (simp add: remove_mask_def t_def spec_strip_def)
    show ?thesis
    proof (cases "length t = 14")
      case True
      with False raw show ?thesis
        by (auto simp add: is_valid_format_def amended_valid_def Let_def t_def[symmetric] scr
            FULL_CNPJ_PATTERN_14 is_repeated_sequence_14)
    next
      case nl: False
      with False raw show ?thesis
        by (simp add: is_valid_format_def amended_valid_def Let_def t_def[symmetric])
    qed
  qed
qed

lemma ascii_upper_ascii: "c < 128 \<Longrightarrow> ascii_upper c < 128"
  by (auto simp: ascii_upper_def)

lemma ascii_upper_alnum_valid:
  "c < 128 \<Longrightarrow> spec_A_Z_0_9 (ascii_upper c) \<Longrightarrow> re_A_Z_ignorecase c \<or> re_digit c"
  by (auto simp: spec_A_Z_0_9_def ascii_upper_def re_A_Z_ignorecase_def
      ascii_lower_letter_def ascii_upper_letter_def re_digit_ascii split: if_splits)

lemma pattern_all_alnum:
  assumes "list_all spec_A_Z_0_9 (take 12 t)" "list_all spec_0_9 (drop 12 t)"
  shows "list_all spec_A_Z_0_9 t"
proof -
  have "list_all spec_A_Z_0_9 (drop 12 t)"
    using assms(2) by (auto simp: list_all_iff spec_0_9_def spec_A_Z_0_9_def)
  with assms(1) have "list_all spec_A_Z_0_9 (take 12 t @ drop 12 t)"
    by (simp only: list_all_append)
  then show ?thesis by simp
qed

lemma spec_strip_ascii:
  assumes "upper_on_ascii up" "is_ascii s"
  shows "spec_strip up s = map ascii_upper (filter (\<lambda>c. \<not> MASK_CHARACTERS c) s)"
proof -
  have "concat (map up xs) = map ascii_upper xs" if "list_all (\<lambda>c. c < 128) xs" for xs
    using that assms(1) by (induction xs) (auto simp: upper_on_ascii_def)
  moreover have "list_all (\<lambda>c. c < 128) (filter (\<lambda>c. \<not> MASK_CHARACTERS c) s)"
    using assms(2) by (auto simp: is_ascii_def list_all_iff)
  ultimately show ?thesis by (simp add: spec_strip_def py_upper_def)
qed

text \<open>On ASCII text the amended rule is the rule of the specification.\<close>

lemma amended_valid_ascii:
  assumes up: "upper_on_ascii up" and asc: "is_ascii s"
  shows "amended_valid up s \<longleftrightarrow> spec_valid up s"
proof -
  define t where "t = spec_strip up s"
  have t: "t = map ascii_upper (filter (\<lambda>c. \<not> MASK_CHARACTERS c) s)"
    unfolding t_def using up asc by (rule spec_strip_ascii)
  have a: "\<And>c. c \<in> set s \<Longrightarrow> c < 128"
    using asc by (simp add: is_ascii_def list_all_iff)
  have ta: "\<And>c. c \<in> set t \<Longrightarrow> c < 128"
    unfolding t using a by (auto simp: ascii_upper_ascii)
  have d: "\<And>c. c \<in> set t \<Longrightarrow> re_digit c = spec_0_9 c"
    using ta by (simp add: re_digit_ascii spec_0_9_def)
  have l: "\<And>c. c \<in> set t \<Longrightarrow> (ascii_upper_letter c \<or> re_digit c) = spec_A_Z_0_9 c"
    using d by (auto simp: spec_A_Z_0_9_def spec_0_9_def ascii_upper_letter_def)
  have p1: "list_all (\<lambda>c. ascii_upper_letter c \<or> re_digit c) (take 12 t)
            = list_all spec_A_Z_0_9 (take 12 t)"
    using l by (auto simp: list_all_iff dest: in_set_takeD)
  have p2: "list_all re_digit (drop 12 t) = list_all spec_0_9 (drop 12 t)"
    using d by (auto simp: list_all_iff dest: in_set_dropD)
  have scr: "list_all (\<lambda>c. re_A_Z_ignorecase c \<or> re_digit c \<or> MASK_CHARACTERS c) s"
    if "list_all spec_A_Z_0_9 (take 12 t)" "list_all spec_0_9 (drop 12 t)"
  proof -
    from that have al: "list_all spec_A_Z_0_9 t" by (rule pattern_all_alnum)
    show ?thesis
      unfolding list_all_iff
    proof
      fix c assume c: "c \<in> set s"
      show "re_A_Z_ignorecase c \<or> re_digit c \<or> MASK_CHARACTERS c"
      proof (cases "MASK_CHARACTERS c")
        case False
        with c have "ascii_upper c \<in> set t" unfolding t by auto
        with al have "spec_A_Z_0_9 (ascii_upper c)" by (simp add: list_all_iff)
        with a[OF c] show ?thesis using ascii_upper_alnum_valid by blast
      qed simp
    qed
  qed
  show ?thesis
    unfolding amended_valid_def spec_valid_def Let_def t_def[symmetric] p1 p2
    using scr by blast
qed

lemma short_after_strip_rejected:
  "length (spec_strip up s) < 14 \<Longrightarrow> \<not> is_valid_format up (Some s)"
  by (simp add: is_valid_format_amended amended_valid_def Let_def)

lemma run_of_one_character_rejected: "\<not> is_valid_format up (Some (replicate 14 c))"
proof
  assume "is_valid_format up (Some (replicate 14 c))"
  then have a: "amended_valid up (replicate 14 c)" by (simp add: is_valid_format_amended)
  define t where "t = spec_strip up (replicate 14 c)"
  from a have len: "length t = 14"
    unfolding amended_valid_def Let_def t_def by blast
  from a have nr: "t \<noteq> replicate (length t) (hd t)"
    unfolding amended_valid_def Let_def t_def by blast
  show False
  proof (cases "MASK_CHARACTERS c")
    case True
    then have "t = []" by (simp add: t_def spec_strip_def py_upper_def)
    with len show False by simp
  next
    case False
    then have t: "t = concat (replicate 14 (up c))"
      by (simp add: t_def spec_strip_def py_upper_def)
    then have "length t = 14 * length (up c)"
      by (simp add: length_concat sum_list_replicate)
    with len have "length (up c) = 1" by simp
    then obtain d where "up c = [d]" by (cases "up c") auto
    with t have "t = replicate 14 d" by simp
    with nr show False by simp
  qed
qed

lemma unicode_upper_on_ascii: "upper_on_ascii unicode_upper"
  by (auto simp: upper_on_ascii_def unicode_upper_def ascii_upper_def)

lemmas cnpj_eval =
  is_valid_format_def is_blank_def str_def py_strip_def py_isspace_def
  INVALID_CHARACTERS_def re_A_Z_ignorecase_def re_digit_def nd_blocks_def MASK_CHARACTERS_def
  remove_mask_def py_upper_def unicode_upper_def ascii_lower_letter_def ascii_upper_letter_def
  FULL_CNPJ_PATTERN_def is_repeated_sequence_def Let_def
  spec_valid_def spec_strip_def spec_0_9_def spec_A_Z_0_9_def is_ascii_def

text \<open>
  With the entries of \<open>unicode_upper\<close>, the dotless i passes the screen, becomes \<open>I\<close>, and
  the text is accepted, as by the code.
\<close>

lemma dotless_i_accepted:
  "is_valid_format unicode_upper (Some (0x131 # str ''2345678000190''))"
  by (simp add: cnpj_eval)

subsection \<open>Claims about the identifier codec\<close>

text \<open>
  C7 as stated fails in both directions outside ASCII. \<^verbatim>\<open>\d\<close> accepts every Unicode
  decimal digit: \<open>1234567800019\<close> followed by U+0665 (ARABIC-INDIC DIGIT FIVE) is accepted,
  and its last character is not in \<^verbatim>\<open>[0-9]\<close>. And the character screen refuses
  U+00DF, whose uppercase is \<open>SS\<close>: U+00DF followed by \<open>234567800019\<close> is rejected,
  although after the strip it is \<open>SS234567800019\<close>, of length 14 and of the right shape.
\<close>

theorem is_valid_format_unicode_counterexample:
  "is_valid_format unicode_upper (Some (str ''1234567800019'' @ [0x665])) \<and>
   \<not> spec_valid unicode_upper (str ''1234567800019'' @ [0x665]) \<and>
   \<not> is_valid_format unicode_upper (Some (0xdf # str ''234567800019'')) \<and>
   spec_valid unicode_upper (0xdf # str ''234567800019'')"
  by (simp add: cnpj_eval)

text \<open>
  C7, amended. For every input \<open>s\<close> and every uppercase table: \<open>is_valid_format\<close>
  returns true if and only if \<open>s\<close> holds only letters \<^verbatim>\<open>[A-Za-z]\<close> (and the four code
  points that \<^verbatim>\<open>[A-Z]\<close> matches when case is ignored), Unicode decimal digits and the
  separators, and after stripping the separators and uppercasing it has length 14, matches
  \<^verbatim>\<open>[A-Z\d]{12}\d{2}\<close> with \<^verbatim>\<open>\d\<close> any Unicode decimal digit, and is not one character
  repeated. On ASCII input, for a table that uppercases ASCII as \<^verbatim>\<open>str.upper\<close> does, this
  is the rule as first stated, with \<^verbatim>\<open>[A-Z0-9]{12}[0-9]{2}\<close>. No text with fewer than 14
  characters after the strip is accepted, and no text that is one character 14 times.
\<close>

theorem is_valid_format_amended_rule:
  "(is_valid_format up (Some s) \<longleftrightarrow> amended_valid up s) \<and>
   (upper_on_ascii up \<and> is_ascii s \<longrightarrow> is_valid_format up (Some s) = spec_valid up s) \<and>
   (length (spec_strip up s) < 14 \<longrightarrow> \<not> is_valid_format up (Some s)) \<and>
   \<not> is_valid_format up (Some (replicate 14 c))"
  using is_valid_format_amended[of up s] amended_valid_ascii[of up s]
    short_after_strip_rejected[of up s] run_of_one_character_rejected[of up c]
  by blast

theorem is_valid_format_amended_rule_witness:
  "upper_on_ascii unicode_upper \<and> is_ascii (str ''12.345.678/0001-90'') \<and>
   is_valid_format unicode_upper (Some (str ''12.345.678/0001-90'')) \<and>
   spec_valid unicode_upper (str ''12.345.678/0001-90'') \<and>
   amended_valid unicode_upper (str ''12.345.678/0001-90'') \<and>
   length (spec_strip unicode_upper (str ''12.345.678/0001'')) < 14 \<and>
   \<not> is_valid_format unicode_upper (Some (str ''12.345.678/0001''))"
  using is_valid_format_amended_rule [of unicode_upper "str ''12.345.678/0001-90''" 0]
    is_valid_format_amended_rule [of unicode_upper "str ''12.345.678/0001''" 0]
    unicode_upper_on_ascii
  by (simp add: cnpj_eval)

section \<open>JSON canonicalizer: facts\<close>

subsection \<open>White space\<close>

lemma py_isspace_space [simp]: "py_isspace 32"
  by (simp add: py_isspace_def)

lemma dropWhile_fixed: "s = [] \<or> \<not> P (hd s) \<Longrightarrow> dropWhile P s = s"
  by (cases s) auto

lemma last_dropWhile: "dropWhile P s \<noteq> [] \<Longrightarrow> last (dropWhile P s) = last s"
  by (induction s) (auto split: if_splits)

lemma py_strip_fixed:
  assumes "s = [] \<or> (\<not> py_isspace (hd s) \<and> \<not> py_isspace (last s))"
  shows "py_strip s = s"
proof (cases "s = []")
  case True
  then show ?thesis by (simp add: py_strip_def)
next
  case False
  with assms have h: "\<not> py_isspace (hd s)" and l: "\<not> py_isspace (last s)" by auto
  from h have 1: "dropWhile py_isspace s = s" by (simp add: dropWhile_fixed)
  from False l have "\<not> py_isspace (hd (rev s))" by (simp add: hd_rev)
  then have 2: "dropWhile py_isspace (rev s) = rev s" by (simp add: dropWhile_fixed)
  show ?thesis by (simp add: py_strip_def 1 2)
qed

lemma py_strip_ends:
  assumes "py_strip s \<noteq> []"
  shows "\<not> py_isspace (hd (py_strip s)) \<and> \<not> py_isspace (last (py_strip s))"
proof -
  define a where "a = dropWhile py_isspace s"
  define b where "b = dropWhile py_isspace (rev a)"
  have s: "py_strip s = rev b" by (simp add: py_strip_def a_def b_def)
  with assms have b: "b \<noteq> []" by simp
  then have ra: "rev a \<noteq> []" by (auto simp: b_def)
  then have a: "a \<noteq> []" by simp
  have "\<not> py_isspace (hd b)" using b unfolding b_def by (rule hd_dropWhile)
  then have l: "\<not> py_isspace (last (rev b))" using b by (simp add: last_rev)
  have "last b = last (rev a)" using b unfolding b_def by (rule last_dropWhile)
  also have "\<dots> = hd a" using a by (simp add: last_rev)
  finally have "hd (rev b) = hd a" using b by (simp add: hd_rev)
  moreover have "\<not> py_isspace (hd a)" using a unfolding a_def by (rule hd_dropWhile)
  ultimately show ?thesis using l s by simp
qed

lemma sub_spaces_hd:
  "s \<noteq> [] \<Longrightarrow> \<not> py_isspace (hd s) \<Longrightarrow> sub_spaces s \<noteq> [] \<and> hd (sub_spaces s) = hd s"
  by (cases s) auto

lemma sub_spaces_last:
  "s \<noteq> [] \<Longrightarrow> \<not> py_isspace (last s) \<Longrightarrow>
   sub_spaces s \<noteq> [] \<and> \<not> py_isspace (last (sub_spaces s))"
proof (induction s rule: sub_spaces.induct)
  case 1
  then show ?case by simp
next
  case (2 c cs)
  show ?case
  proof (cases "py_isspace c")
    case True
    with "2.prems" have cs: "cs \<noteq> []" by auto
    with "2.prems" have lcs: "\<not> py_isspace (last cs)" by simp
    have d: "dropWhile py_isspace cs \<noteq> []"
    proof
      assume "dropWhile py_isspace cs = []"
      then have "\<forall>x \<in> set cs. py_isspace x" by (simp add: dropWhile_eq_Nil_conv)
      with cs lcs show False using last_in_set by blast
    qed
    then have "last (dropWhile py_isspace cs) = last cs" by (rule last_dropWhile)
    with lcs d "2.IH"(1)[OF True] True show ?thesis by simp
  next
    case False
    show ?thesis
    proof (cases "cs = []")
      case True
      with False show ?thesis by simp
    next
      case nonempty: False
      with "2.prems" have "\<not> py_isspace (last cs)" by simp
      with "2.IH"(2)[OF False nonempty] False show ?thesis by simp
    qed
  qed
qed

lemma sub_spaces_idem: "sub_spaces (sub_spaces s) = sub_spaces s"
proof (induction s rule: sub_spaces.induct)
  case 1
  then show ?case by simp
next
  case (2 c cs)
  show ?case
  proof (cases "py_isspace c")
    case True
    define d where "d = dropWhile py_isspace cs"
    have "d = [] \<or> \<not> py_isspace (hd d)"
      unfolding d_def using hd_dropWhile[of py_isspace cs] by blast
    then have "sub_spaces d = [] \<or> \<not> py_isspace (hd (sub_spaces d))"
      using sub_spaces_hd[of d] by (cases "d = []") auto
    then have "dropWhile py_isspace (sub_spaces d) = sub_spaces d"
      by (rule dropWhile_fixed)
    with "2.IH"(1)[OF True] True show ?thesis by (simp add: d_def)
  next
    case False
    with "2.IH"(2)[OF False] show ?thesis by simp
  qed
qed

lemma normalize_spaces_eq: "normalize_spaces s = sub_spaces (py_strip s)"
  by (simp add: normalize_spaces_def py_strip_def)

lemma normalize_spaces_idem: "normalize_spaces (normalize_spaces s) = normalize_spaces s"
proof -
  define t where "t = py_strip s"
  define u where "u = sub_spaces t"
  have "py_strip u = u"
  proof (cases "t = []")
    case True
    then show ?thesis by (simp add: u_def py_strip_def)
  next
    case False
    then have e: "\<not> py_isspace (hd t)" "\<not> py_isspace (last t)"
      using py_strip_ends[of s] by (simp_all add: t_def)
    from False e have "u \<noteq> [] \<and> hd u = hd t" unfolding u_def by (simp add: sub_spaces_hd)
    moreover from False e have "\<not> py_isspace (last u)" unfolding u_def by (simp add: sub_spaces_last)
    ultimately show ?thesis using e by (simp add: py_strip_fixed)
  qed
  then show ?thesis
    by (simp add: normalize_spaces_eq t_def[symmetric] u_def[symmetric]) (simp add: u_def sub_spaces_idem)
qed

subsection \<open>\<^verbatim>\<open>_clean_element\<close>\<close>

lemma clean_element_idem: "clean_element (clean_element v) = clean_element v"
  by (induction v rule: clean_element.induct) (auto simp: normalize_spaces_idem)

lemma clean_element_keys: "map fst (map (\<lambda>(key, value). (key, clean_element value)) d) = map fst d"
  by (induction d) auto

section \<open>The \<^verbatim>\<open>json\<close> module: reading back what \<^verbatim>\<open>dumps\<close> wrote\<close>

subsection \<open>Strings\<close>

lemma hex_val_hex_digit: "n < 16 \<Longrightarrow> hex_val (hex_digit n) = Some n"
  by (auto simp: hex_val_def hex_digit_def)

lemma uXXXX_control:
  "c < 32 \<Longrightarrow> uXXXX (48 # 48 # hex_digit (c div 16) # hex_digit (c mod 16) # r) = Some c"
proof -
  assume c: "c < 32"
  then have "c div 16 < 16" by simp
  then have 1: "hex_val (hex_digit (c div 16)) = Some (c div 16)" by (rule hex_val_hex_digit)
  have 2: "hex_val (hex_digit (c mod 16)) = Some (c mod 16)" by (simp add: hex_val_hex_digit)
  have 0: "hex_val 48 = Some 0" by (simp add: hex_val_def)
  show ?thesis by (simp add: uXXXX_def 0 1 2)
qed

lemma scanstring_escape_char:
  "scanstring (escape_char c @ r) = cons_chunk c (scanstring r)"
proof -
  consider "c = 34" | "c = 92" | "c = 10" | "c = 13" | "c = 9" | "c = 8" | "c = 12"
    | "c < 32" "c \<notin> {10, 13, 9, 8, 12}" | "32 \<le> c" "c \<noteq> 34" "c \<noteq> 92"
    by force
  then show ?thesis
  proof cases
    case 8
    then have "\<not> is_high_surrogate c" by (simp add: is_high_surrogate_def)
    with 8 show ?thesis
      by (simp add: escape_char_def uXXXX_control)
  qed (simp_all add: escape_char_def simple_escape_def)
qed

lemma scanstring_encoded:
  "scanstring (concat (map escape_char s) @ 34 # rest) = Some (s, rest)"
  by (induction s) (simp_all add: scanstring_escape_char cons_chunk_def)

lemma scanstring_encode_basestring:
  "\<exists>body. encode_basestring s = 34 # body \<and> scanstring (body @ rest) = Some (s, rest)"
  by (simp add: encode_basestring_def scanstring_encoded)

subsection \<open>Numbers\<close>

lemma value_end_cases:
  assumes "value_end r"
  obtains "r = []" | c r' where "r = c # r'" "c = 44 \<or> c = 93 \<or> c = 125"
  using assms by (cases r) (auto simp: value_end_def)

lemma digits_append:
  assumes "value_end r"
  shows "takeWhile json_digit (xs @ r) = takeWhile json_digit xs"
    and "dropWhile json_digit (xs @ r) = dropWhile json_digit xs @ r"
  using assms
  by (induction xs) (auto simp: json_digit_def elim!: value_end_cases)

lemma scan_sign_append:
  assumes "value_end r"
  shows "scan_sign (s @ r) = (fst (scan_sign s), snd (scan_sign s) @ r)"
  using assms by (cases s) (auto simp: scan_sign_def elim!: value_end_cases)

lemma scan_int_part_append:
  assumes "value_end r"
  shows "scan_int_part (s @ r) =
         (case scan_int_part s of None \<Rightarrow> None | Some (ip, t) \<Rightarrow> Some (ip, t @ r))"
proof (cases s)
  case Nil
  with assms show ?thesis
    by (auto simp: scan_int_part_def json_digit_def elim!: value_end_cases)
next
  case (Cons c cs)
  with assms show ?thesis
    by (simp add: scan_int_part_def digits_append)
qed

lemma scan_frac_append:
  assumes "value_end r"
  shows "scan_frac (s @ r) = (fst (scan_frac s), snd (scan_frac s) @ r)"
proof (cases s)
  case Nil
  with assms show ?thesis
    by (auto simp: scan_frac_def elim!: value_end_cases split: list.splits)
next
  case (Cons c cs)
  show ?thesis
  proof (cases cs)
    case Nil
    with Cons assms show ?thesis
      by (auto simp: scan_frac_def json_digit_def elim!: value_end_cases)
  next
    case (Cons d ds)
    with \<open>s = c # cs\<close> assms show ?thesis
      by (simp add: scan_frac_def digits_append)
  qed
qed

lemma scan_exp_sign_append:
  assumes "value_end r"
  shows "scan_exp_sign (s @ r) = (fst (scan_exp_sign s), snd (scan_exp_sign s) @ r)"
  using assms by (cases s) (auto simp: scan_exp_sign_def elim!: value_end_cases)

lemma scan_exp_append:
  assumes "value_end r"
  shows "scan_exp (s @ r) = (fst (scan_exp s), snd (scan_exp s) @ r)"
proof (cases s)
  case Nil
  with assms show ?thesis
    by (auto simp: scan_exp_def elim!: value_end_cases)
next
  case (Cons e cs)
  show ?thesis
  proof (cases "e = 101 \<or> e = 69")
    case False
    with Cons show ?thesis by (simp add: scan_exp_def)
  next
    case True
    obtain sg t where st: "scan_exp_sign cs = (sg, t)" by (cases "scan_exp_sign cs")
    then have str: "scan_exp_sign (cs @ r) = (sg, t @ r)"
      using scan_exp_sign_append[OF assms, of cs] by simp
    show ?thesis
    proof (cases t)
      case Nil
      with Cons True st str assms show ?thesis
        by (auto simp: scan_exp_def json_digit_def elim!: value_end_cases)
    next
      case (Cons d ds)
      with \<open>s = e # cs\<close> True st str assms show ?thesis
        by (simp add: scan_exp_def digits_append)
    qed
  qed
qed

lemma match_number_append:
  assumes "value_end r"
  shows "match_number (s @ r) =
         (case match_number s of
            None \<Rightarrow> None
          | Some (ip, fr, ex, t) \<Rightarrow> Some (ip, fr, ex, t @ r))"
proof -
  obtain sg s1 where n1: "scan_sign s = (sg, s1)" by (cases "scan_sign s")
  then have n1r: "scan_sign (s @ r) = (sg, s1 @ r)"
    using scan_sign_append[OF assms, of s] by simp
  show ?thesis
  proof (cases "scan_int_part s1")
    case None
    then have "scan_int_part (s1 @ r) = None"
      using scan_int_part_append[OF assms, of s1] by simp
    with None n1 n1r show ?thesis by (simp add: match_number_def)
  next
    case (Some p)
    obtain ip s2 where p: "p = (ip, s2)" by (cases p)
    with Some have n2: "scan_int_part (s1 @ r) = Some (ip, s2 @ r)"
      using scan_int_part_append[OF assms, of s1] by simp
    obtain fr s3 where n3: "scan_frac s2 = (fr, s3)" by (cases "scan_frac s2")
    then have n3r: "scan_frac (s2 @ r) = (fr, s3 @ r)"
      using scan_frac_append[OF assms, of s2] by simp
    obtain ex s4 where n4: "scan_exp s3 = (ex, s4)" by (cases "scan_exp s3")
    then have n4r: "scan_exp (s3 @ r) = (ex, s4 @ r)"
      using scan_exp_append[OF assms, of s3] by simp
    from Some p n1 n1r n2 n3 n3r n4 n4r show ?thesis by (simp add: match_number_def)
  qed
qed

lemma nat_digits_all: "list_all json_digit (nat_digits n)"
proof (induction n rule: nat_digits.induct)
  case (1 n)
  show ?case
  proof (cases "n < 10")
    case True
    then show ?thesis by (subst nat_digits.simps) (simp add: json_digit_def)
  next
    case False
    have "json_digit (48 + n mod 10)" by (simp add: json_digit_def)
    with False "1.IH" show ?thesis by (subst nat_digits.simps) simp
  qed
qed

lemma nat_digits_nonempty: "nat_digits n \<noteq> []"
  by (subst nat_digits.simps) simp

lemma nat_digits_hd: "hd (nat_digits n) = 48 \<longleftrightarrow> n = 0"
proof (induction n rule: nat_digits.induct)
  case (1 n)
  show ?case
  proof (cases "n < 10")
    case True
    then show ?thesis by (subst nat_digits.simps) simp
  next
    case False
    then have "hd (nat_digits n) = hd (nat_digits (n div 10))"
      by (subst nat_digits.simps) (simp add: nat_digits_nonempty)
    with False "1.IH" show ?thesis by auto
  qed
qed

lemma digits_value_snoc: "digits_value (ds @ [d]) = 10 * digits_value ds + (d - 48)"
  by (simp add: digits_value_def)

lemma digits_value_nat_digits: "digits_value (nat_digits n) = n"
proof (induction n rule: nat_digits.induct)
  case (1 n)
  show ?case
  proof (cases "n < 10")
    case True
    then show ?thesis by (subst nat_digits.simps) (simp add: digits_value_def)
  next
    case False
    with "1.IH" show ?thesis
      by (subst nat_digits.simps) (simp add: digits_value_snoc)
  qed
qed

lemma scan_int_part_nat_digits: "scan_int_part (nat_digits n) = Some (nat_digits n, [])"
proof (cases "nat_digits n")
  case Nil
  then show ?thesis using nat_digits_nonempty[of n] by simp
next
  case (Cons c cs)
  have all: "json_digit c" "list_all json_digit cs"
    using nat_digits_all[of n] Cons by simp_all
  show ?thesis
  proof (cases "n = 0")
    case True
    then show ?thesis by (subst (1 2) nat_digits.simps) (simp add: scan_int_part_def)
  next
    case False
    then have "c \<noteq> 48" using nat_digits_hd[of n] Cons by simp
    with all Cons show ?thesis
      by (simp add: scan_int_part_def list_all_iff)
  qed
qed

lemma match_number_int_str: "match_number (int_str n) = Some (int_str n, [], [], [])"
proof -
  have d: "hd (nat_digits m) \<noteq> 45" for m
    using nat_digits_all[of m] nat_digits_nonempty[of m]
    by (cases "nat_digits m") (auto simp: json_digit_def)
  have s: "scan_sign (nat_digits m) = ([], nat_digits m)" for m
    using d[of m] nat_digits_nonempty[of m] by (cases "nat_digits m") (auto simp: scan_sign_def)
  have f: "scan_frac [] = ([], [])" by (simp add: scan_frac_def)
  have e: "scan_exp [] = ([], [])" by (simp add: scan_exp_def)
  show ?thesis
  proof (cases "n < 0")
    case True
    then show ?thesis
      by (simp add: int_str_def match_number_def scan_sign_def scan_int_part_nat_digits f e)
  next
    case False
    then show ?thesis
      by (simp add: int_str_def match_number_def s scan_int_part_nat_digits f e)
  qed
qed

lemma py_int_int_str: "py_int (int_str n) = n"
proof (cases "n < 0")
  case True
  then show ?thesis by (simp add: int_str_def py_int_def digits_value_nat_digits)
next
  case False
  obtain c cs where c: "nat_digits (nat n) = c # cs"
    using nat_digits_nonempty[of "nat n"] by (cases "nat_digits (nat n)") auto
  then have "c \<noteq> 45"
    using nat_digits_all[of "nat n"] by (auto simp: json_digit_def)
  moreover have "digits_value (c # cs) = nat n"
    using digits_value_nat_digits[of "nat n"] c by simp
  ultimately show ?thesis
    using False c by (simp add: int_str_def py_int_def)
qed

subsection \<open>Values\<close>

lemma str_null: "str ''null'' = [110, 117, 108, 108]" by (simp add: str_def)
lemma str_true: "str ''true'' = [116, 114, 117, 101]" by (simp add: str_def)
lemma str_false: "str ''false'' = [102, 97, 108, 115, 101]" by (simp add: str_def)
lemma str_NaN: "str ''NaN'' = [78, 97, 78]" by (simp add: str_def)
lemma str_Infinity: "str ''Infinity'' = [73, 110, 102, 105, 110, 105, 116, 121]"
  by (simp add: str_def)
lemma str_mInfinity: "str ''-Infinity'' = [45, 73, 110, 102, 105, 110, 105, 116, 121]"
  by (simp add: str_def)

lemmas str_consts = str_null str_true str_false str_NaN str_Infinity str_mInfinity

lemma match_number_start:
  assumes "match_number t = Some (ip, fr, ex, r)"
  obtains c cs where "t = c # cs" "json_digit c"
  | d ds where "t = 45 # d # ds" "json_digit d"
proof -
  obtain sg s1 where s: "scan_sign t = (sg, s1)" by (cases "scan_sign t")
  with assms obtain p where p: "scan_int_part s1 = Some p"
    by (cases "scan_int_part s1") (auto simp: match_number_def)
  then obtain d ds where d: "s1 = d # ds" "json_digit d"
    by (cases s1) (auto simp: scan_int_part_def json_digit_def split: if_splits)
  show ?thesis
  proof (cases t)
    case Nil
    with s d show ?thesis by (simp add: scan_sign_def)
  next
    case (Cons c cs)
    show ?thesis
    proof (cases "c = 45")
      case True
      with Cons s d that(2) show ?thesis by (simp add: scan_sign_def)
    next
      case False
      with Cons s d that(1) show ?thesis by (simp add: scan_sign_def)
    qed
  qed
qed

lemma parse_value_number_start:
  assumes "json_digit c \<or> (c = 45 \<and> (\<exists>d ds. cs = d # ds \<and> json_digit d))"
  shows "parse_value fl (Suc n) (c # cs) =
         (case match_number (c # cs) of
            None \<Rightarrow> None
          | Some (ip, fr, ex, r) \<Rightarrow>
              if fr = [] \<and> ex = [] then Some (JInt (py_int ip), r)
              else Some (JFloat (fl (ip @ fr @ ex)), r))"
  using assms by (auto simp: json_digit_def str_consts)

lemma parse_value_number:
  assumes "match_number s = Some (ip, fr, ex, r)"
  shows "parse_value fl (Suc n) s =
         (if fr = [] \<and> ex = [] then Some (JInt (py_int ip), r)
          else Some (JFloat (fl (ip @ fr @ ex)), r))"
proof -
  from assms have
    "\<exists>c cs. s = c # cs \<and> (json_digit c \<or> (c = 45 \<and> (\<exists>d ds. cs = d # ds \<and> json_digit d)))"
    by (rule match_number_start) auto
  then obtain c cs where s: "s = c # cs"
    and c: "json_digit c \<or> (c = 45 \<and> (\<exists>d ds. cs = d # ds \<and> json_digit d))"
    by blast
  show ?thesis
    unfolding s parse_value_number_start[OF c] using assms[unfolded s] by simp
qed

lemma skip_ws_start: "value_start c \<Longrightarrow> skip_ws (c # cs) = c # cs"
  by (auto simp: skip_ws_def json_ws_def value_start_def json_digit_def)

lemma skip_ws_delim [simp]:
  "skip_ws (44 # r) = 44 # r" "skip_ws (93 # r) = 93 # r" "skip_ws (125 # r) = 125 # r"
  "skip_ws (58 # r) = 58 # r" "skip_ws (34 # r) = 34 # r" "skip_ws [] = []"
  by (simp_all add: skip_ws_def json_ws_def)

lemma canonical_float_start:
  assumes "canonical_float fl t"
  obtains c cs where "t = c # cs" "value_start c"
proof -
  from assms consider "t = str ''NaN''" | "t = str ''Infinity''" | "t = str ''-Infinity''"
    | ip fr ex where "match_number t = Some (ip, fr, ex, [])"
    by (auto simp: canonical_float_def split: option.splits)
  then show ?thesis
  proof cases
    case 4
    then show ?thesis
      by (rule match_number_start) (auto intro: that simp: value_start_def)
  qed (auto intro: that simp: str_consts value_start_def)
qed

lemma json_dumps_start:
  assumes "py_value fl v"
  obtains c cs where "json_dumps v = c # cs" "value_start c"
proof (cases v)
  case (JInt n)
  have "match_number (int_str n) = Some (int_str n, [], [], [])" by (rule match_number_int_str)
  then show ?thesis
    by (rule match_number_start) (auto intro: that simp: JInt value_start_def)
next
  case (JFloat t)
  with assms have "canonical_float fl t" by simp
  then show ?thesis
    by (rule canonical_float_start) (auto intro: that simp: JFloat)
next
  case (JBool b)
  then show ?thesis
    by (cases b) (auto intro: that simp: str_consts value_start_def)
qed (auto intro: that simp: str_consts value_start_def encode_basestring_def)

lemma skip_ws_dumps: "py_value fl v \<Longrightarrow> skip_ws (json_dumps v @ r) = json_dumps v @ r"
  by (erule json_dumps_start) (simp add: skip_ws_start)

lemma parse_value_atom:
  assumes "value_end rest"
  shows "parse_value fl (Suc n) (json_dumps JNull @ rest) = Some (JNull, rest)"
    and "parse_value fl (Suc n) (json_dumps (JBool b) @ rest) = Some (JBool b, rest)"
    and "parse_value fl (Suc n) (json_dumps (JInt i) @ rest) = Some (JInt i, rest)"
    and "parse_value fl (Suc n) (json_dumps (JStr s) @ rest) = Some (JStr s, rest)"
    and "canonical_float fl t \<Longrightarrow>
         parse_value fl (Suc n) (json_dumps (JFloat t) @ rest) = Some (JFloat t, rest)"
proof -
  show "parse_value fl (Suc n) (json_dumps JNull @ rest) = Some (JNull, rest)"
    by (simp add: str_consts)
  show "parse_value fl (Suc n) (json_dumps (JBool b) @ rest) = Some (JBool b, rest)"
    by (simp add: str_consts)
  have "match_number (int_str i @ rest) = Some (int_str i, [], [], rest)"
    using match_number_append[OF assms, of "int_str i"] by (simp add: match_number_int_str)
  then have "parse_value fl (Suc n) (int_str i @ rest) =
      (if [] = ([]::pystr) \<and> [] = ([]::pystr) then Some (JInt (py_int (int_str i)), rest)
       else Some (JFloat (fl (int_str i @ [] @ [])), rest))"
    by (rule parse_value_number)
  then show "parse_value fl (Suc n) (json_dumps (JInt i) @ rest) = Some (JInt i, rest)"
    by (simp only: json_dumps.simps py_int_int_str simp_thms if_True)
  show "parse_value fl (Suc n) (json_dumps (JStr s) @ rest) = Some (JStr s, rest)"
    by (simp add: encode_basestring_def scanstring_encoded)
  assume c: "canonical_float fl t"
  then consider "t = str ''NaN''" | "t = str ''Infinity''" | "t = str ''-Infinity''"
    | ip fr ex where "match_number t = Some (ip, fr, ex, [])" "fr \<noteq> [] \<or> ex \<noteq> []"
        "fl (ip @ fr @ ex) = t"
    by (auto simp: canonical_float_def split: option.splits)
  then show "parse_value fl (Suc n) (json_dumps (JFloat t) @ rest) = Some (JFloat t, rest)"
  proof cases
    case 4
    then have "match_number (t @ rest) = Some (ip, fr, ex, rest)"
      using match_number_append[OF assms, of t] by simp
    then have "parse_value fl (Suc n) (t @ rest) =
        (if fr = [] \<and> ex = [] then Some (JInt (py_int ip), rest)
         else Some (JFloat (fl (ip @ fr @ ex)), rest))"
      by (rule parse_value_number)
    moreover have "\<not> (fr = [] \<and> ex = [])" using 4(2) by blast
    ultimately have "parse_value fl (Suc n) (t @ rest) = Some (JFloat (fl (ip @ fr @ ex)), rest)"
      by (simp only: if_False)
    with 4(3) show ?thesis by (simp only: json_dumps.simps)
  qed (simp_all add: str_consts)
qed

lemma dict_set_fresh: "k \<notin> fst ` set d \<Longrightarrow> dict_set d k v = d @ [(k, v)]"
  by (induction d) auto

lemma join_items_Cons: "xs \<noteq> [] \<Longrightarrow> join_items (x # xs) = x @ 44 # join_items xs"
  by (cases xs) simp_all

lemma value_end_delim [simp]: "value_end (44 # r)" "value_end (93 # r)" "value_end (125 # r)"
  "value_end []"
  by (simp_all add: value_end_def)

lemma value_start_not_close: "value_start c \<Longrightarrow> c \<noteq> 93 \<and> c \<noteq> 125"
  by (auto simp: value_start_def json_digit_def)

lemma parse_array_items_dumps:
  assumes elems: "\<And>v n rest. v \<in> set vs \<Longrightarrow> py_value fl v \<Longrightarrow> value_end rest \<Longrightarrow>
            weight v \<le> n \<Longrightarrow> parse_value fl n (json_dumps v @ rest) = Some (v, rest)"
    and vals: "list_all (py_value fl) vs"
    and ne: "vs \<noteq> []"
    and fuel: "sum_list (map (\<lambda>v. Suc (weight v)) vs) \<le> m"
  shows "parse_array_items fl m (join_items (map json_dumps vs) @ 93 # r) = Some (vs, r)"
  using ne elems vals fuel
proof (induction vs arbitrary: m rule: list_nonempty_induct)
  case (single v)
  then obtain m' where m: "m = Suc m'" "weight v \<le> m'" by (cases m) auto
  have "parse_value fl m' (json_dumps v @ 93 # r) = Some (v, 93 # r)"
    by (rule single(1)) (use single(2) m in simp_all)
  then show ?case by (simp add: m)
next
  case (cons v vs)
  then obtain m' where m: "m = Suc m'" "weight v \<le> m'"
    "sum_list (map (\<lambda>v. Suc (weight v)) vs) \<le> m'" by (cases m) auto
  have v: "parse_value fl m' (json_dumps v @ 44 # join_items (map json_dumps vs) @ 93 # r)
           = Some (v, 44 # join_items (map json_dumps vs) @ 93 # r)"
    by (rule cons.prems(1)) (use cons.prems(2) m in simp_all)
  from cons.hyps obtain w ws where vs: "vs = w # ws" by (cases vs) auto
  with cons.prems(2) have "py_value fl w" by simp
  then obtain c cs where c: "json_dumps w = c # cs" "value_start c"
    by (rule json_dumps_start)
  have "join_items (map json_dumps vs) = c # cs \<or>
        (\<exists>t. join_items (map json_dumps vs) = c # cs @ 44 # t)"
    using vs c by (cases ws) simp_all
  then have sk: "skip_ws (join_items (map json_dumps vs) @ 93 # r)
                 = join_items (map json_dumps vs) @ 93 # r"
    using c(2) by (auto simp: skip_ws_start)
  have rest: "parse_array_items fl m' (join_items (map json_dumps vs) @ 93 # r) = Some (vs, r)"
  proof (rule cons.IH)
    fix v1 n1 rest1
    assume "v1 \<in> set vs" "py_value fl v1" "value_end rest1" "weight v1 \<le> n1"
    then show "parse_value fl n1 (json_dumps v1 @ rest1) = Some (v1, rest1)"
      using cons.prems(1)[of v1] by simp
  next
    show "list_all (py_value fl) vs" using cons.prems(2) by simp
  next
    show "sum_list (map (\<lambda>v. Suc (weight v)) vs) \<le> m'" by (rule m(3))
  qed
  have j: "join_items (map json_dumps (v # vs)) = json_dumps v @ 44 # join_items (map json_dumps vs)"
    using cons.hyps by (simp add: join_items_Cons)
  show ?case
    unfolding j m(1) by (simp add: v sk rest)
qed

text \<open>One member of an object, as \<^verbatim>\<open>dumps\<close> writes it.\<close>

lemma parse_object_items_dumps:
  assumes elems: "\<And>k v n rest. (k, v) \<in> set d \<Longrightarrow> py_value fl v \<Longrightarrow> value_end rest \<Longrightarrow>
            weight v \<le> n \<Longrightarrow> parse_value fl n (json_dumps v @ rest) = Some (v, rest)"
    and vals: "list_all (\<lambda>(k, v). py_value fl v) d"
    and ne: "d \<noteq> []"
    and keys: "distinct (map fst (acc @ d))"
    and fuel: "sum_list (map (\<lambda>(k, v). Suc (weight v)) d) \<le> m"
  shows "parse_object_items fl m
           (join_items (map (\<lambda>(k, v). encode_basestring k @ 58 # json_dumps v) d) @ 125 # r) acc
         = Some (acc @ d, r)"
  using ne elems vals keys fuel
proof (induction d arbitrary: m acc rule: list_nonempty_induct)
  case (single p)
  obtain k v where p: "p = (k, v)" by (cases p)
  with single obtain m' where m: "m = Suc m'" "weight v \<le> m'" by (cases m) auto
  have v: "parse_value fl m' (json_dumps v @ 125 # r) = Some (v, 125 # r)"
    by (rule single(1)[of k]) (use single(2) m p in simp_all)
  have sk: "skip_ws (json_dumps v @ 125 # r) = json_dumps v @ 125 # r"
    using single(2) p by (simp add: skip_ws_dumps[of fl])
  have fresh: "dict_set acc k v = acc @ [(k, v)]"
    using single(3) p by (intro dict_set_fresh) auto
  show ?case
    by (simp add: p m encode_basestring_def scanstring_encoded sk v fresh)
next
  case (cons p d)
  obtain k v where p: "p = (k, v)" by (cases p)
  with cons.prems obtain m' where m: "m = Suc m'" "weight v \<le> m'"
    "sum_list (map (\<lambda>(k, v). Suc (weight v)) d) \<le> m'" by (cases m) auto
  let ?mem = "\<lambda>(k, v). encode_basestring k @ 58 # json_dumps v"
  let ?tail = "join_items (map ?mem d) @ 125 # r"
  have v: "parse_value fl m' (json_dumps v @ 44 # ?tail) = Some (v, 44 # ?tail)"
    by (rule cons.prems(1)[of k]) (use cons.prems(2) m p in simp_all)
  have skv: "skip_ws (json_dumps v @ 44 # ?tail) = json_dumps v @ 44 # ?tail"
    using cons.prems(2) p by (simp add: skip_ws_dumps[of fl])
  have fresh: "dict_set acc k v = acc @ [(k, v)]"
    using cons.prems(3) p by (intro dict_set_fresh) auto
  from cons.hyps obtain q qs where d: "d = q # qs" by (cases d) auto
  obtain k' v' where q: "q = (k', v')" by (cases q)
  have "\<exists>t. join_items (map ?mem d) = 34 # t"
    using d q by (cases qs) (simp_all add: encode_basestring_def)
  then have skt: "skip_ws ?tail = ?tail" by auto
  have rest: "parse_object_items fl m' ?tail (acc @ [(k, v)]) = Some ((acc @ [(k, v)]) @ d, r)"
  proof (rule cons.IH)
    fix k1 v1 n1 rest1
    assume "(k1, v1) \<in> set d" "py_value fl v1" "value_end rest1" "weight v1 \<le> n1"
    then show "parse_value fl n1 (json_dumps v1 @ rest1) = Some (v1, rest1)"
      using cons.prems(1)[of k1 v1] by simp
  next
    show "list_all (\<lambda>(k, v). py_value fl v) d" using cons.prems(2) by simp
  next
    show "distinct (map fst ((acc @ [(k, v)]) @ d))" using cons.prems(3) p by simp
  next
    show "sum_list (map (\<lambda>(k, v). Suc (weight v)) d) \<le> m'" by (rule m(3))
  qed
  obtain body where body: "encode_basestring k = 34 # body"
    "\<And>rest. scanstring (body @ rest) = Some (k, rest)"
    by (simp add: encode_basestring_def scanstring_encoded)
  have j: "join_items (map ?mem (p # d)) = 34 # body @ 58 # json_dumps v @ 44 # join_items (map ?mem d)"
    using cons.hyps by (simp add: join_items_Cons p body(1))
  show ?case
    unfolding j m(1)
    by (simp add: body(2) skv v fresh skt rest p)
qed

lemma parse_value_dumps:
  "py_value fl v \<Longrightarrow> value_end rest \<Longrightarrow> weight v \<le> n \<Longrightarrow>
   parse_value fl n (json_dumps v @ rest) = Some (v, rest)"
proof (induction v arbitrary: n rest)
  case JNull
  then obtain n' where "n = Suc n'" by (cases n) auto
  with JNull show ?case using parse_value_atom(1) by simp
next
  case (JBool b)
  then obtain n' where "n = Suc n'" by (cases n) auto
  with JBool show ?case using parse_value_atom(2) by simp
next
  case (JInt i)
  then obtain n' where "n = Suc n'" by (cases n) auto
  with JInt show ?case using parse_value_atom(3) by simp
next
  case (JFloat t)
  then obtain n' where "n = Suc n'" by (cases n) auto
  with JFloat show ?case using parse_value_atom(5) by simp
next
  case (JStr s)
  then obtain n' where "n = Suc n'" by (cases n) auto
  with JStr show ?case using parse_value_atom(4) by simp
next
  case (JArr vs)
  then obtain n' where n: "n = Suc n'" "sum_list (map (\<lambda>v. Suc (weight v)) vs) \<le> n'"
    by (cases n) auto
  show ?case
  proof (cases "vs = []")
    case True
    then show ?thesis by (simp add: n)
  next
    case False
    have items: "parse_array_items fl n' (join_items (map json_dumps vs) @ 93 # rest) = Some (vs, rest)"
      using JArr.IH JArr.prems(1) False n(2) by (intro parse_array_items_dumps) auto
    from False obtain w ws where vs: "vs = w # ws" by (cases vs) auto
    with JArr.prems(1) have "py_value fl w" by simp
    then obtain c cs where c: "json_dumps w = c # cs" "value_start c"
      by (rule json_dumps_start)
    then obtain t where t: "join_items (map json_dumps vs) @ 93 # rest = c # t"
      using vs by (cases ws) auto
    have "skip_ws (c # t) = c # t" using c(2) by (rule skip_ws_start)
    moreover have "c \<noteq> 93" using c(2) value_start_not_close by blast
    ultimately show ?thesis
      using items by (simp add: n t)
  qed
next
  case (JObj d)
  then obtain n' where n: "n = Suc n'" "sum_list (map (\<lambda>(k, v). Suc (weight v)) d) \<le> n'"
    by (cases n) auto
  let ?mem = "\<lambda>(k, v). encode_basestring k @ 58 # json_dumps v"
  show ?case
  proof (cases "d = []")
    case True
    then show ?thesis by (simp add: n)
  next
    case False
    have ih: "\<And>k v n rest. (k, v) \<in> set d \<Longrightarrow> py_value fl v \<Longrightarrow> value_end rest \<Longrightarrow>
            weight v \<le> n \<Longrightarrow> parse_value fl n (json_dumps v @ rest) = Some (v, rest)"
      using JObj.IH by fastforce
    have items: "parse_object_items fl n' (join_items (map ?mem d) @ 125 # rest) []
                 = Some ([] @ d, rest)"
      using JObj.prems(1) False n(2) ih by (intro parse_object_items_dumps) auto
    from False obtain q qs where d: "d = q # qs" by (cases d) auto
    obtain t where t: "join_items (map ?mem d) @ 125 # rest = 34 # t"
      using d by (cases q; cases qs) (auto simp: encode_basestring_def)
    show ?thesis
      using items by (simp add: n t)
  qed
qed

lemma join_items_length:
  "sum_list (map (\<lambda>x. Suc (length x)) xs) \<le> Suc (length (join_items xs))"
  by (induction xs rule: join_items.induct) simp_all

lemma int_str_nonempty: "int_str n \<noteq> []"
  using nat_digits_nonempty by (simp add: int_str_def)

lemma weight_le_length: "py_value fl v \<Longrightarrow> weight v \<le> length (json_dumps v)"
proof (induction v)
  case (JFloat t)
  then have "canonical_float fl t" by simp
  then show ?case by (rule canonical_float_start) simp
next
  case (JInt n)
  then show ?case using int_str_nonempty[of n] by (cases "int_str n") simp_all
next
  case (JArr vs)
  have "sum_list (map (\<lambda>v. Suc (weight v)) vs)
        \<le> sum_list (map (\<lambda>v. Suc (length (json_dumps v))) vs)"
    using JArr by (intro sum_list_mono) (auto simp: list_all_iff)
  also have "\<dots> = sum_list (map (\<lambda>x. Suc (length x)) (map json_dumps vs))"
    by (simp add: comp_def)
  also have "\<dots> \<le> Suc (length (join_items (map json_dumps vs)))"
    by (rule join_items_length)
  finally show ?case by simp
next
  case (JObj d)
  let ?mem = "\<lambda>(k, v). encode_basestring k @ 58 # json_dumps v"
  have "sum_list (map (\<lambda>(k, v). Suc (weight v)) d)
        \<le> sum_list (map (\<lambda>p. Suc (length (?mem p))) d)"
  proof (rule sum_list_mono)
    fix p assume p: "p \<in> set d"
    obtain k v where kv: "p = (k, v)" by (cases p)
    with p JObj.prems have "py_value fl v" by (auto simp: list_all_iff)
    with p kv JObj.IH have "weight v \<le> length (json_dumps v)" by fastforce
    with kv show "(case p of (k, v) \<Rightarrow> Suc (weight v)) \<le> Suc (length (?mem p))" by simp
  qed
  also have "\<dots> = sum_list (map (\<lambda>x. Suc (length x)) (map ?mem d))"
    by (simp add: comp_def)
  also have "\<dots> \<le> Suc (length (join_items (map ?mem d)))"
    by (rule join_items_length)
  finally show ?case by simp
qed (simp_all add: str_consts encode_basestring_def)

lemma value_start_not_bom: "value_start c \<Longrightarrow> c \<noteq> 0xFEFF"
  by (auto simp: value_start_def json_digit_def)

text \<open>\<^verbatim>\<open>json.loads(json.dumps(v)) == v\<close> for every value \<^verbatim>\<open>loads\<close> can return.\<close>

lemma json_loads_dumps:
  assumes "py_value fl v"
  shows "json_loads fl (json_dumps v) = Some v"
proof -
  from assms obtain c cs where c: "json_dumps v = c # cs" "value_start c"
    by (rule json_dumps_start)
  have sk: "skip_ws (json_dumps v) = json_dumps v"
    using skip_ws_dumps[OF assms, of "[]"] by simp
  have "weight v \<le> 2 * length (json_dumps v) + 2"
    using weight_le_length[OF assms] by simp
  then have "parse_value fl (2 * length (json_dumps v) + 2) (json_dumps v @ []) = Some (v, [])"
    using assms by (intro parse_value_dumps) simp_all
  then have p: "parse_value fl (2 * length (json_dumps v) + 2) (json_dumps v) = Some (v, [])"
    by simp
  have "c \<noteq> 0xFEFF" using c(2) by (rule value_start_not_bom)
  then show ?thesis
    unfolding json_loads_def sk p using c(1) by simp
qed

subsection \<open>What \<^verbatim>\<open>loads\<close> returns\<close>

lemma dict_set_keys: "fst ` set (dict_set d k v) = insert k (fst ` set d)"
  by (induction d) auto

lemma dict_set_distinct: "distinct (map fst d) \<Longrightarrow> distinct (map fst (dict_set d k v))"
proof (induction d)
  case Nil
  then show ?case by simp
next
  case (Cons p d)
  then show ?case
    using dict_set_keys[of d k v] by (auto simp: image_iff)
qed

lemma dict_set_all: "list_all P d \<Longrightarrow> P (k, v) \<Longrightarrow> list_all P (dict_set d k v)"
  by (induction d) auto

lemma float_repr_okD:
  "float_repr_ok fl \<Longrightarrow> match_number s = Some (ip, fr, ex, r) \<Longrightarrow> \<not> (fr = [] \<and> ex = []) \<Longrightarrow>
   canonical_float fl (fl (ip @ fr @ ex))"
  unfolding float_repr_ok_def by (drule spec[of _ s]) auto

lemma canonical_float_consts [simp]:
  "canonical_float fl (str ''NaN'')" "canonical_float fl (str ''Infinity'')"
  "canonical_float fl (str ''-Infinity'')"
  by (simp_all add: canonical_float_def)

lemma parse_value_scalar:
  assumes "c \<noteq> 34" "c \<noteq> 123" "c \<noteq> 91"
    and "parse_value fl (Suc n) (c # cs) = Some (v, r)"
  shows "v = JNull \<or> v = JBool True \<or> v = JBool False \<or> v = JFloat (str ''NaN'') \<or>
         v = JFloat (str ''Infinity'') \<or> v = JFloat (str ''-Infinity'') \<or>
         (\<exists>ip fr ex. match_number (c # cs) = Some (ip, fr, ex, r) \<and>
            (if fr = [] \<and> ex = [] then v = JInt (py_int ip) else v = JFloat (fl (ip @ fr @ ex))))"
proof -
  define s where "s = c # cs"
  define num where "num =
        (case match_number s of
           None \<Rightarrow> None
         | Some (ip, fr, ex, r) \<Rightarrow>
             if fr = [] \<and> ex = [] then Some (JInt (py_int ip), r)
             else Some (JFloat (fl (ip @ fr @ ex)), r))"
  have "parse_value fl (Suc n) (c # cs) =
     (if take 4 s = str ''null'' then Some (JNull, drop 4 s)
      else if take 4 s = str ''true'' then Some (JBool True, drop 4 s)
      else if take 5 s = str ''false'' then Some (JBool False, drop 5 s)
      else if take 3 s = str ''NaN'' then Some (JFloat (str ''NaN''), drop 3 s)
      else if take 8 s = str ''Infinity'' then Some (JFloat (str ''Infinity''), drop 8 s)
      else if take 9 s = str ''-Infinity'' then Some (JFloat (str ''-Infinity''), drop 9 s)
      else num)"
    unfolding s_def num_def using assms(1-3) by (simp only: parse_value.simps list.case if_False)
  with assms(4) have
    "v = JNull \<or> v = JBool True \<or> v = JBool False \<or> v = JFloat (str ''NaN'') \<or>
         v = JFloat (str ''Infinity'') \<or> v = JFloat (str ''-Infinity'') \<or> num = Some (v, r)"
    by (simp only: split: if_splits) auto
  moreover have "\<exists>ip fr ex. match_number s = Some (ip, fr, ex, r) \<and>
            (if fr = [] \<and> ex = [] then v = JInt (py_int ip) else v = JFloat (fl (ip @ fr @ ex)))"
    if "num = Some (v, r)"
  proof -
    from that obtain ip fr ex r' where m: "match_number s = Some (ip, fr, ex, r')"
      and e: "(if fr = [] \<and> ex = [] then Some (JInt (py_int ip), r')
               else Some (JFloat (fl (ip @ fr @ ex)), r')) = Some (v, r)"
      unfolding num_def by (auto split: option.splits)
    from e have "r' = r"
      and "if fr = [] \<and> ex = [] then v = JInt (py_int ip) else v = JFloat (fl (ip @ fr @ ex))"
      by (auto split: if_splits)
    with m show ?thesis by blast
  qed
  ultimately show ?thesis unfolding s_def by blast
qed

lemma parse_value_py_value_step:
  assumes ok: "float_repr_ok fl"
    and iha: "\<And>s vs r. parse_array_items fl n s = Some (vs, r) \<Longrightarrow> list_all (py_value fl) vs"
    and iho: "\<And>s d' r. parse_object_items fl n s [] = Some (d', r) \<Longrightarrow>
            distinct (map fst d') \<and> list_all (\<lambda>(k, v). py_value fl v) d'"
    and p: "parse_value fl (Suc n) s = Some (v, r)"
  shows "py_value fl v"
proof (cases s)
  case Nil
  with p show ?thesis by simp
next
  case (Cons c cs)
  consider "c = 34" | "c = 123" | "c = 91" | "c \<noteq> 34" "c \<noteq> 123" "c \<noteq> 91" by blast
  then show ?thesis
  proof cases
    case 1
    with p Cons show ?thesis by (auto split: option.splits)
  next
    case 2
    with p Cons show ?thesis
      using iho by (auto split: option.splits list.splits if_splits)
  next
    case 3
    with p Cons show ?thesis
      using iha by (auto split: option.splits list.splits if_splits)
  next
    case 4
    from parse_value_scalar[OF 4 p[unfolded Cons]] show ?thesis
    proof (elim disjE exE conjE)
      fix ip fr ex
      assume m: "match_number (c # cs) = Some (ip, fr, ex, r)"
        and v: "if fr = [] \<and> ex = [] then v = JInt (py_int ip) else v = JFloat (fl (ip @ fr @ ex))"
      show ?thesis
      proof (cases "fr = [] \<and> ex = []")
        case True
        with v show ?thesis by simp
      next
        case False
        with v float_repr_okD[OF ok m False] show ?thesis by simp
      qed
    qed simp_all
  qed
qed

lemma parse_array_items_py_value_step:
  assumes ihv: "\<And>s v r. parse_value fl n s = Some (v, r) \<Longrightarrow> py_value fl v"
    and iha: "\<And>s vs r. parse_array_items fl n s = Some (vs, r) \<Longrightarrow> list_all (py_value fl) vs"
    and p: "parse_array_items fl (Suc n) s = Some (vs, r)"
  shows "list_all (py_value fl) vs"
proof -
  from p obtain v r0 where v: "parse_value fl n s = Some (v, r0)"
    by (auto split: option.splits)
  then have pv: "py_value fl v" by (rule ihv)
  from p v obtain c :: nat and r1 where r1: "skip_ws r0 = c # r1"
    by (auto split: list.splits)
  show ?thesis
  proof (cases "c = 93")
    case True
    with p v r1 pv show ?thesis by auto
  next
    case False
    with p v r1 obtain ws where "parse_array_items fl n (skip_ws r1) = Some (ws, r)" "vs = v # ws"
      by (auto split: option.splits if_splits)
    with pv iha show ?thesis by auto
  qed
qed

lemma parse_object_items_py_value_step:
  assumes ihv: "\<And>s v r. parse_value fl n s = Some (v, r) \<Longrightarrow> py_value fl v"
    and iho: "\<And>s d d' r. parse_object_items fl n s d = Some (d', r) \<Longrightarrow>
            distinct (map fst d) \<Longrightarrow> list_all (\<lambda>(k, v). py_value fl v) d \<Longrightarrow>
            distinct (map fst d') \<and> list_all (\<lambda>(k, v). py_value fl v) d'"
    and p: "parse_object_items fl (Suc n) s d = Some (d', r)"
    and d: "distinct (map fst d)" "list_all (\<lambda>(k, v). py_value fl v) d"
  shows "distinct (map fst d') \<and> list_all (\<lambda>(k, v). py_value fl v) d'"
proof -
  from p obtain cs where s: "s = 34 # cs"
    by (auto split: list.splits if_splits)
  from p s obtain key r0 where k: "scanstring cs = Some (key, r0)"
    by (auto split: option.splits)
  from p s k obtain r1 where r1: "skip_ws r0 = 58 # r1"
    by (auto split: list.splits if_splits)
  from p s k r1 obtain v r2 where v: "parse_value fl n (skip_ws r1) = Some (v, r2)"
    by (auto split: option.splits)
  from p s k r1 v obtain c2 :: nat and r3 where r3: "skip_ws r2 = c2 # r3"
    by (auto split: list.splits)
  from v have "py_value fl v" by (rule ihv)
  with d have d1: "distinct (map fst (dict_set d key v))"
    and d2: "list_all (\<lambda>(k, v). py_value fl v) (dict_set d key v)"
    by (simp_all add: dict_set_distinct dict_set_all)
  show ?thesis
  proof (cases "c2 = 125")
    case True
    with p s k r1 v r3 have "d' = dict_set d key v" by simp
    with d1 d2 show ?thesis by simp
  next
    case False
    with p s k r1 v r3 have
      "parse_object_items fl n (skip_ws r3) (dict_set d key v) = Some (d', r)"
      by (auto split: if_splits)
    then show ?thesis using d1 d2 by (rule iho)
  qed
qed

lemma parse_py_value_all:
  assumes ok: "float_repr_ok fl"
  shows "(\<forall>s v r. parse_value fl n s = Some (v, r) \<longrightarrow> py_value fl v) \<and>
         (\<forall>s vs r. parse_array_items fl n s = Some (vs, r) \<longrightarrow> list_all (py_value fl) vs) \<and>
         (\<forall>s d d' r. parse_object_items fl n s d = Some (d', r) \<longrightarrow>
            distinct (map fst d) \<longrightarrow> list_all (\<lambda>(k, v). py_value fl v) d \<longrightarrow>
            distinct (map fst d') \<and> list_all (\<lambda>(k, v). py_value fl v) d')"
proof (induction n)
  case 0
  show ?case by simp
next
  case (Suc n)
  then have ihv: "\<And>s v r. parse_value fl n s = Some (v, r) \<Longrightarrow> py_value fl v"
    and iha: "\<And>s vs r. parse_array_items fl n s = Some (vs, r) \<Longrightarrow> list_all (py_value fl) vs"
    and iho: "\<And>s d d' r. parse_object_items fl n s d = Some (d', r) \<Longrightarrow>
            distinct (map fst d) \<Longrightarrow> list_all (\<lambda>(k, v). py_value fl v) d \<Longrightarrow>
            distinct (map fst d') \<and> list_all (\<lambda>(k, v). py_value fl v) d'"
    by blast+
  have iho0: "\<And>s d' r. parse_object_items fl n s [] = Some (d', r) \<Longrightarrow>
            distinct (map fst d') \<and> list_all (\<lambda>(k, v). py_value fl v) d'"
    using iho[of _ "[]"] by simp
  have v: "py_value fl v" if p: "parse_value fl (Suc n) s = Some (v, r)" for s v r
    by (rule parse_value_py_value_step[where n = n and s = s and r = r, OF ok _ _ p])
      (erule iha, erule iho0)
  have a: "list_all (py_value fl) vs" if p: "parse_array_items fl (Suc n) s = Some (vs, r)" for s vs r
    by (rule parse_array_items_py_value_step[where n = n and s = s and r = r, OF _ _ p])
      (erule ihv, erule iha)
  have o: "distinct (map fst d') \<and> list_all (\<lambda>(k, v). py_value fl v) d'"
    if p: "parse_object_items fl (Suc n) s d = Some (d', r)" and d: "distinct (map fst d)"
      "list_all (\<lambda>(k, v). py_value fl v) d" for s d d' r
    by (rule parse_object_items_py_value_step[where n = n and s = s and r = r, OF _ _ p d])
      (erule ihv, erule iho, assumption+)
  from v a o show ?case by blast
qed

lemma json_loads_py_value:
  assumes "float_repr_ok fl" "json_loads fl s = Some v"
  shows "py_value fl v"
proof -
  from assms(2) obtain r where
    "parse_value fl (2 * length s + 2) (skip_ws s) = Some (v, r)"
    unfolding json_loads_def
    by (cases s) (auto simp del: parse_value.simps split: option.splits if_splits)
  moreover have "\<forall>t v r. parse_value fl (2 * length s + 2) t = Some (v, r) \<longrightarrow> py_value fl v"
    using parse_py_value_all[OF assms(1), of "2 * length s + 2"] by (rule conjunct1)
  ultimately show ?thesis by blast
qed

lemma clean_element_py_value: "py_value fl v \<Longrightarrow> py_value fl (clean_element v)"
proof (induction v rule: clean_element.induct)
  case (1 d)
  let ?f = "\<lambda>(key, value). (key, clean_element value)"
  have k: "map fst (map ?f d) = map fst d" by (rule clean_element_keys)
  from "1.prems" have dd: "distinct (map fst d)" by simp
  from "1.prems" have vv: "\<And>a b. (a, b) \<in> set d \<Longrightarrow> py_value fl b"
    by (auto simp: list_all_iff)
  have "list_all (\<lambda>(k, v). py_value fl v) (map ?f d)"
    unfolding list_all_iff
  proof
    fix p assume "p \<in> set (map ?f d)"
    then obtain a b where kv: "(a, b) \<in> set d" "p = (a, clean_element b)"
      by auto
    from "1.IH"[OF kv(1) refl vv[OF kv(1)]] kv(2)
    show "case p of (k, v) \<Rightarrow> py_value fl v" by simp
  qed
  with dd k show ?case by (simp only: clean_element.simps py_value.simps simp_thms)
next
  case (2 xs)
  then show ?case by (auto simp: list_all_iff)
qed simp_all

text \<open>Cleaning twice is cleaning once, on the text as on the value.\<close>

lemma clean_json_spaces_idem:
  assumes "float_repr_ok fl"
  shows "clean_json_spaces fl (clean_json_spaces fl x) = clean_json_spaces fl x"
proof (cases "json_loads fl x")
  case None
  then show ?thesis by (simp add: clean_json_spaces_def)
next
  case (Some v)
  then have "py_value fl (clean_element v)"
    using assms by (intro clean_element_py_value json_loads_py_value)
  then have "json_loads fl (json_dumps (clean_element v)) = Some (clean_element v)"
    by (rule json_loads_dumps)
  with Some show ?thesis
    by (simp add: clean_json_spaces_def clean_element_idem)
qed

section \<open>NDJSON processor: facts about reading a line\<close>

lemma match_number_1_5: "match_number (str ''1.5'') = Some (str ''1'', str ''.5'', [], [])"
  by (simp add: str_def match_number_def scan_sign_def scan_int_part_def scan_frac_def
      scan_exp_def json_digit_def)

lemma float_repr_ok_fl_const: "float_repr_ok fl_const"
proof -
  have "canonical_float fl_const (str ''1.5'')"
    by (simp add: canonical_float_def match_number_1_5 fl_const_def) (simp add: str_def)
  then show ?thesis
    by (auto simp: float_repr_ok_def fl_const_def split: option.splits)
qed

lemma extract_no_identifier:
  "gives_no_identifier fl s \<Longrightarrow> extract_cnpj_and_json fl s = (None, s)"
  by (auto simp: gives_no_identifier_def has_nonempty_cnpj_def unwrap_envelope_def
      extract_cnpj_and_json_def split: option.splits json.splits)

lemma extract_identifier:
  "\<not> gives_no_identifier fl s \<Longrightarrow> \<exists>c t. extract_cnpj_and_json fl s = (Some c, t) \<and> py_truthy c"
  by (auto simp: gives_no_identifier_def has_nonempty_cnpj_def unwrap_envelope_def
      extract_cnpj_and_json_def split: option.splits json.splits)

lemma process_line_no_identifier:
  "gives_no_identifier fl (py_strip line) \<Longrightarrow> process_line fl xxh3 line = Inr None"
  by (simp add: process_line_def Let_def extract_no_identifier)

lemma read_and_process_items:
  "item \<in> set (read_and_process_ndjson fl xxh3 lines) \<Longrightarrow>
   \<exists>line \<in> set lines. process_line fl xxh3 line = Inr (Some item)"
  by (auto simp: read_and_process_ndjson_def Let_def split: if_splits sum.splits option.splits)







subsection \<open>Closed examples\<close>

lemmas json_eval =
  str_def encode_basestring_def escape_char_def dict_get_def py_truthy_def
  normalize_spaces_def py_strip_def py_isspace_def utf8_encodable_def


lemma loads_sample_clean_line:
  "json_loads fl (str ''{\"cnpj\":\"12345678000190\"}'')
   = Some (JObj [(str ''cnpj'', JStr (str ''12345678000190''))])"
proof -
  have "json_loads fl (json_dumps (JObj [(str ''cnpj'', JStr (str ''12345678000190''))]))
        = Some (JObj [(str ''cnpj'', JStr (str ''12345678000190''))])"
    by (rule json_loads_dumps) simp
  then show ?thesis by (simp add: json_eval)
qed

lemma loads_sample_spaces:
  "json_loads fl (str ''{\"a  b\":\"  x   y \"}'')
   = Some (JObj [(str ''a  b'', JStr (str ''  x   y ''))])"
proof -
  have "json_loads fl (json_dumps (JObj [(str ''a  b'', JStr (str ''  x   y ''))]))
        = Some (JObj [(str ''a  b'', JStr (str ''  x   y ''))])"
    by (rule json_loads_dumps) simp
  then show ?thesis by (simp add: json_eval)
qed

lemma loads_empty_object: "json_loads fl (str ''{}'') = Some (JObj [])"
proof -
  have "json_loads fl (json_dumps (JObj [])) = Some (JObj [])"
    by (rule json_loads_dumps) simp
  then show ?thesis by (simp add: json_eval)
qed

lemma clean_sample_spaces:
  "clean_json_spaces fl (str ''{\"a  b\":\"  x   y \"}'') = str ''{\"a  b\":\"x y\"}''"
  by (simp add: clean_json_spaces_def loads_sample_spaces) (simp add: json_eval)


lemma process_sample_clean_line:
  "process_line fl sample_digest (str ''{\"cnpj\":\"12345678000190\"}'') =
     Inr (Some \<lparr>item_cnpj = JStr (str ''12345678000190''),
                 json_data = str ''{\"cnpj\":\"12345678000190\"}'',
                 hash_value = str ''0123456789abcdef''\<rparr>)"
proof -
  have s: "py_strip (str ''{\"cnpj\":\"12345678000190\"}'') = str ''{\"cnpj\":\"12345678000190\"}''"
    by (simp add: json_eval)
  have c: "clean_json_spaces fl (str ''{\"cnpj\":\"12345678000190\"}'')
           = str ''{\"cnpj\":\"12345678000190\"}''"
    by (simp add: clean_json_spaces_def loads_sample_clean_line) (simp add: json_eval)
  have e: "extract_cnpj_and_json fl (str ''{\"cnpj\":\"12345678000190\"}'')
           = (Some (JStr (str ''12345678000190'')), str ''{\"cnpj\":\"12345678000190\"}'')"
    unfolding extract_cnpj_and_json_def loads_sample_clean_line
    by (subst (2) c[symmetric]) (simp add: json_eval)
  have h: "compute_hash sample_digest (str ''{\"cnpj\":\"12345678000190\"}'')
           = Inr (str ''0123456789abcdef'')"
    by (simp add: compute_hash_def sample_digest_def) (simp add: json_eval)
  show ?thesis
    unfolding process_line_def s Let_def e
    by (simp add: h) (simp add: json_eval)
qed

lemma loads_not_json: "json_loads fl (str ''x'') = None"
  by (simp add: json_loads_def str_def skip_ws_def json_ws_def eval_nat_numeral
      match_number_def scan_sign_def scan_int_part_def json_digit_def)

subsection \<open>Claims about the canonicalizer and the line reader\<close>

text \<open>
  C8: \<open>clean_json_spaces\<close> is idempotent on every text \<open>x\<close>, valid JSON or not, and
  returns \<open>x\<close> unchanged when parsing fails. The hypothesis is on the float parameter
  only: the text Python prints for a float reads back as the same float.
\<close>

theorem clean_json_spaces_idempotent:
  assumes "float_repr_ok fl"
  shows "clean_json_spaces fl (clean_json_spaces fl x) = clean_json_spaces fl x \<and>
         (json_loads fl x = None \<longrightarrow> clean_json_spaces fl x = x)"
  using clean_json_spaces_idem[OF assms, of x] by (simp add: clean_json_spaces_def)

theorem clean_json_spaces_idempotent_witness:
  "float_repr_ok fl_const \<and>
   clean_json_spaces fl_const (str ''{\"a  b\":\"  x   y \"}'') = str ''{\"a  b\":\"x y\"}'' \<and>
   clean_json_spaces fl_const (str ''{\"a  b\":\"x y\"}'') = str ''{\"a  b\":\"x y\"}'' \<and>
   json_loads fl_const (str ''x'') = None \<and> clean_json_spaces fl_const (str ''x'') = str ''x''"
  using clean_json_spaces_idempotent[OF float_repr_ok_fl_const, of "str ''{\"a  b\":\"  x   y \"}''"]
    clean_json_spaces_idempotent[OF float_repr_ok_fl_const, of "str ''x''"]
    float_repr_ok_fl_const
  by (simp add: clean_sample_spaces loads_not_json)



text \<open>
  C10: a line that does not parse, or whose parsed object (after unwrapping an optional
  \<open>json_output\<close> envelope) has no non-empty \<open>cnpj\<close>, gives no identifier; the line
  yields no item and raises nothing, so nothing of it is hashed or reaches the list that
  is diffed, written and uploaded.
\<close>

theorem line_without_identifier_dropped:
  "(gives_no_identifier fl json_line \<longrightarrow> extract_cnpj_and_json fl json_line = (None, json_line)) \<and>
   (gives_no_identifier fl (py_strip line) \<longrightarrow> process_line fl xxh3 line = Inr None) \<and>
   (list_all (\<lambda>l. gives_no_identifier fl (py_strip l)) lines \<longrightarrow>
      read_and_process_ndjson fl xxh3 lines = [])"
proof -
  have "read_and_process_ndjson fl xxh3 lines = []"
    if "list_all (\<lambda>l. gives_no_identifier fl (py_strip l)) lines"
  proof -
    from that have "map (process_line fl xxh3) lines = map (\<lambda>l. Inr None) lines"
      by (auto simp: list_all_iff process_line_no_identifier)
    then show ?thesis
      by (simp add: read_and_process_ndjson_def Let_def list_ex_iff)
  qed
  then show ?thesis
    using extract_no_identifier process_line_no_identifier by blast
qed

theorem line_without_identifier_dropped_witness:
  "gives_no_identifier fl_const (str ''x'') \<and>
   extract_cnpj_and_json fl_const (str ''x'') = (None, str ''x'') \<and>
   gives_no_identifier fl_const (py_strip (str ''{}'')) \<and>
   process_line fl_const sample_digest (str ''{}'') = Inr None \<and>
   read_and_process_ndjson fl_const sample_digest [str ''{}''] = []"
proof -
  have s: "py_strip (str ''{}'') = str ''{}''" by (simp add: json_eval)
  have a: "gives_no_identifier fl_const (str ''x'')"
    by (simp add: gives_no_identifier_def loads_not_json)
  have b: "gives_no_identifier fl_const (py_strip (str ''{}''))"
    unfolding s
    by (simp add: gives_no_identifier_def loads_empty_object has_nonempty_cnpj_def
        unwrap_envelope_def dict_get_def)
  from a b line_without_identifier_dropped[of fl_const "str ''x''" "str ''{}''" sample_digest
      "[str ''{}'']"]
  show ?thesis by simp
qed




section \<open>Hash catalog: facts\<close>

lemma yielded_existing:
  "item \<in> set batch \<Longrightarrow>
   yielded (existing_hashes sq tbl batch) item =
     (stored_hash tbl item = None \<or> (\<exists>h. stored_hash tbl item = Some h \<and> h \<noteq> hash_value item))"
proof (cases "item_cnpj item")
  case (JStr s)
  assume "item \<in> set batch"
  with JStr have "list_ex (\<lambda>item. sqlite_text sq (item_cnpj item) = Some s) batch"
    by (auto simp: list_ex_iff sqlite_text_def intro!: bexI[of _ item])
  with JStr show ?thesis
    by (auto simp: yielded_def existing_hashes_def stored_hash_def split: option.splits)
qed (simp_all add: yielded_def stored_hash_def)

lemma probe_chunks_filter:
  "list_all (\<lambda>item. sqlite_bindable (item_cnpj item)) items \<Longrightarrow>
   probe_chunks sq tbl items =
     Inr (filter (\<lambda>item. stored_hash tbl item = None \<or>
                          (\<exists>h. stored_hash tbl item = Some h \<and> h \<noteq> hash_value item)) items)"
proof (induction sq tbl items rule: probe_chunks.induct)
  case (1 sq tbl items)
  let ?P = "\<lambda>item. stored_hash tbl item = None \<or>
                    (\<exists>h. stored_hash tbl item = Some h \<and> h \<noteq> hash_value item)"
  show ?case
  proof (cases "items = []")
    case True
    then show ?thesis by (subst probe_chunks.simps) simp
  next
    case False
    define batch where "batch = take 500 items"
    have nb: "\<not> list_ex (\<lambda>item. \<not> sqlite_bindable (item_cnpj item)) batch"
      using "1.prems" by (auto simp: batch_def list_ex_iff list_all_iff dest: in_set_takeD)
    have "list_all (\<lambda>item. sqlite_bindable (item_cnpj item)) (drop 500 items)"
      using "1.prems" by (auto simp: list_all_iff dest: in_set_dropD)
    then have later: "probe_chunks sq tbl (drop 500 items) = Inr (filter ?P (drop 500 items))"
      using "1.IH"[OF False batch_def nb] by simp
    have fb: "filter (yielded (existing_hashes sq tbl batch)) batch = filter ?P batch"
      by (rule filter_cong) (simp_all add: yielded_existing)
    have "filter ?P batch @ filter ?P (drop 500 items) = filter ?P (batch @ drop 500 items)"
      by (simp only: filter_append)
    also have "batch @ drop 500 items = items"
      by (simp add: batch_def)
    finally have all: "filter ?P batch @ filter ?P (drop 500 items) = filter ?P items" .
    have "probe_chunks sq tbl items =
            Inr (filter (yielded (existing_hashes sq tbl batch)) batch @ filter ?P (drop 500 items))"
      using False nb later
      by (subst probe_chunks.simps) (simp add: Let_def batch_def[symmetric])
    then show ?thesis by (simp only: fb all)
  qed
qed

lemma get_items_to_process_filter:
  assumes "initialized st" "connection_open st" "\<not> lock_held st"
    and "list_all (\<lambda>item. sqlite_bindable (item_cnpj item)) items"
  shows "get_items_to_process sq st items =
     (Returned (filter (\<lambda>item. stored_hash (rows st) item = None \<or>
                  (\<exists>h. stored_hash (rows st) item = Some h \<and> h \<noteq> hash_value item)) items), st)"
  using assms by (simp add: get_items_to_process_def probe_chunks_filter)

lemma get_items_to_process_catalog: "snd (get_items_to_process sq st items) = st"
  by (simp add: get_items_to_process_def split: sum.splits)

lemma add_each_blocked: "lock_held st \<Longrightarrow> items \<noteq> [] \<Longrightarrow> add_each sq st items = (Blocked, st)"
  by (cases items) (simp_all add: add_async_def)

text \<open>
  With any item at all, \<open>add_batch\<close> takes the lock and then waits for it for ever in
  \<open>add_async\<close>: no row is inserted and nothing is committed.
\<close>

lemma add_batch_blocks:
  "\<not> lock_held st \<Longrightarrow> items \<noteq> [] \<Longrightarrow> add_batch sq st items = (Blocked, st\<lparr>lock_held := True\<rparr>)"
  by (simp add: add_batch_def add_each_blocked)

lemma add_batch_empty:
  "\<not> lock_held st \<Longrightarrow> connection_open st \<Longrightarrow> add_batch sq st [] = (Returned (), commit_batch st)"
  by (simp add: add_batch_def commit_batch_def)

text \<open>When the upload fails, or is not reached, the catalog is as it was.\<close>

lemma upload_failure_keeps_catalog:
  "fst (snd (process_ndjson_file_to_storage fl xxh3 sq False lines st)) = st"
  using get_items_to_process_catalog[of sq st "read_and_process_ndjson fl xxh3 lines"]
  by (auto simp: process_ndjson_file_to_storage_def Let_def split: prod.splits outcome.splits)

lemma sample_item_bindable: "sqlite_bindable (item_cnpj sample_item)"
  by (simp add: sample_item_def sqlite_bindable_def utf8_encodable_def str_def)

lemma sample_item_new:
  "get_items_to_process sq open_catalog [sample_item] = (Returned [sample_item], open_catalog)"
proof -
  have "get_items_to_process sq open_catalog [sample_item] =
     (Returned (filter (\<lambda>item. stored_hash (rows open_catalog) item = None \<or>
        (\<exists>h. stored_hash (rows open_catalog) item = Some h \<and> h \<noteq> hash_value item))
        [sample_item]), open_catalog)"
    by (rule get_items_to_process_filter) (simp_all add: open_catalog_def sample_item_bindable)
  then show ?thesis
    by (simp add: stored_hash_def open_catalog_def sample_item_def)
qed

lemma read_sample_line:
  "read_and_process_ndjson fl sample_digest [str ''{\"cnpj\":\"12345678000190\"}''] = [sample_item]"
  by (simp add: read_and_process_ndjson_def process_sample_clean_line sample_item_def)

lemma write_sample_item:
  "write_json_files [sample_item] =
     [(JStr (str ''12345678000190''), str ''{\"cnpj\":\"12345678000190\"}'')]"
  by (simp add: write_json_files_def sample_item_def)

lemma open_catalog_free: "\<not> lock_held open_catalog"
  by (simp add: open_catalog_def)

subsection \<open>Claims about the catalog\<close>

text \<open>
  C2: for every list of items and every content of the catalog, the probe yields exactly
  the items whose identifier is absent from the catalog or present with a different
  stored hash, in the order of the input, whatever the chunks of 500. The catalog is
  initialized and its lock free, and every identifier can be a parameter of the statement
  (no list, no dict, no integer beyond 64 bits, no surrogate); an identifier that is not a
  text has no stored hash. The catalog is left as it was.
\<close>

theorem get_items_to_process_yields_changed:
  assumes "initialized st" "connection_open st" "\<not> lock_held st"
    and "list_all (\<lambda>item. sqlite_bindable (item_cnpj item)) items"
  shows "get_items_to_process sq st items =
     (Returned (filter (\<lambda>item. stored_hash (rows st) item = None \<or>
                  (\<exists>h. stored_hash (rows st) item = Some h \<and> h \<noteq> hash_value item)) items), st)"
  using assms by (rule get_items_to_process_filter)

theorem get_items_to_process_yields_changed_witness:
  "initialized (open_catalog\<lparr>rows := [str ''2'' \<mapsto> str ''b'', str ''3'' \<mapsto> str ''c'']\<rparr>) \<and>
   connection_open (open_catalog\<lparr>rows := [str ''2'' \<mapsto> str ''b'', str ''3'' \<mapsto> str ''c'']\<rparr>) \<and>
   \<not> lock_held (open_catalog\<lparr>rows := [str ''2'' \<mapsto> str ''b'', str ''3'' \<mapsto> str ''c'']\<rparr>) \<and>
   list_all (\<lambda>item. sqlite_bindable (item_cnpj item))
     [\<lparr>item_cnpj = JStr (str ''3''), json_data = [], hash_value = str ''x''\<rparr>,
      \<lparr>item_cnpj = JStr (str ''2''), json_data = [], hash_value = str ''b''\<rparr>,
      \<lparr>item_cnpj = JStr (str ''1''), json_data = [], hash_value = str ''a''\<rparr>] \<and>
   get_items_to_process sample_float_text
     (open_catalog\<lparr>rows := [str ''2'' \<mapsto> str ''b'', str ''3'' \<mapsto> str ''c'']\<rparr>)
     [\<lparr>item_cnpj = JStr (str ''3''), json_data = [], hash_value = str ''x''\<rparr>,
      \<lparr>item_cnpj = JStr (str ''2''), json_data = [], hash_value = str ''b''\<rparr>,
      \<lparr>item_cnpj = JStr (str ''1''), json_data = [], hash_value = str ''a''\<rparr>]
   = (Returned
       [\<lparr>item_cnpj = JStr (str ''3''), json_data = [], hash_value = str ''x''\<rparr>,
        \<lparr>item_cnpj = JStr (str ''1''), json_data = [], hash_value = str ''a''\<rparr>],
      open_catalog\<lparr>rows := [str ''2'' \<mapsto> str ''b'', str ''3'' \<mapsto> str ''c'']\<rparr>)"
  using get_items_to_process_yields_changed
    [of "open_catalog\<lparr>rows := [str ''2'' \<mapsto> str ''b'', str ''3'' \<mapsto> str ''c'']\<rparr>"
        "[\<lparr>item_cnpj = JStr (str ''3''), json_data = [], hash_value = str ''x''\<rparr>,
          \<lparr>item_cnpj = JStr (str ''2''), json_data = [], hash_value = str ''b''\<rparr>,
          \<lparr>item_cnpj = JStr (str ''1''), json_data = [], hash_value = str ''a''\<rparr>]"
        sample_float_text]
  by (simp add: open_catalog_def sqlite_bindable_def utf8_encodable_def stored_hash_def str_def)

text \<open>
  C6 on the code: with the catalog initialized, open and its lock free, \<open>add_batch\<close> of
  one item does not complete. It takes the lock and calls \<open>add_async\<close>, which waits for
  the same lock: the call stays suspended with the lock held, no row is inserted and
  nothing is committed.
\<close>

theorem add_batch_one_item_blocks:
  "add_batch sample_float_text open_catalog [sample_item] =
     (Blocked, open_catalog\<lparr>lock_held := True\<rparr>)"
  by (rule add_batch_blocks) (simp_all add: open_catalog_def)

text \<open>
  C3 on the code: a file of one line with a new identifier and an upload that succeeds.
  The document is written and uploaded, and the step that records it never returns: the
  catalog keeps its rows, the empty table, and its lock stays held. With an upload that
  fails, the same file raises and leaves the catalog as it was.
\<close>

theorem uploaded_batch_is_not_recorded:
  "process_ndjson_file_to_storage fl_const sample_digest sample_float_text True
     [str ''{\"cnpj\":\"12345678000190\"}''] open_catalog
   = (Blocked, open_catalog\<lparr>lock_held := True\<rparr>,
      [(JStr (str ''12345678000190''), str ''{\"cnpj\":\"12345678000190\"}'')]) \<and>
   rows (open_catalog\<lparr>lock_held := True\<rparr>) = Map.empty \<and>
   process_ndjson_file_to_storage fl_const sample_digest sample_float_text False
     [str ''{\"cnpj\":\"12345678000190\"}''] open_catalog
   = (Raised UploadFailed, open_catalog,
      [(JStr (str ''12345678000190''), str ''{\"cnpj\":\"12345678000190\"}'')])"
  by (simp add: process_ndjson_file_to_storage_def read_sample_line sample_item_new
      write_sample_item add_batch_blocks open_catalog_free)
     (simp add: open_catalog_def)

end
